theory Spec2Isabelle
  imports Main "HOL-Library.Word"
begin

section \<open>Machine types and undefined behaviour\<close>

text \<open>
  The simulator \<^verbatim>\<open>csim.c\<close> keeps its geometry and its three counters in C \<^verbatim>\<open>int\<close>
  globals and its addresses and tags in \<^verbatim>\<open>unsigned long long\<close>. Addresses are 64-bit
  words (unsigned division and remainder). A C \<^verbatim>\<open>int\<close> is a mathematical integer
  between \<open>INT_MIN\<close> and \<open>INT_MAX\<close>; an operation whose result leaves that range, a
  shift by a negative or too large amount, and a read outside an allocated array are
  undefined in C and are results of their own in the model.
\<close>

type_synonym mem_addr_t = "64 word"

datatype error = SignedOverflow | ShiftRange | DivByZero | OutOfBounds | AllocFailed

definition INT_MAX :: int where
  "INT_MAX = 2147483647"

definition INT_MIN :: int where
  "INT_MIN = - 2147483648"

definition bindE :: "error + 'a \<Rightarrow> ('a \<Rightarrow> error + 'b) \<Rightarrow> error + 'b" where
  "bindE m k = (case m of Inl e \<Rightarrow> Inl e | Inr x \<Rightarrow> k x)"

definition add_int :: "int \<Rightarrow> int \<Rightarrow> error + int" where
  "add_int x y = (if INT_MIN \<le> x + y \<and> x + y \<le> INT_MAX then Inr (x + y) else Inl SignedOverflow)"

definition mul_int :: "int \<Rightarrow> int \<Rightarrow> error + int" where
  "mul_int x y = (if INT_MIN \<le> x * y \<and> x * y \<le> INT_MAX then Inr (x * y) else Inl SignedOverflow)"

text \<open>\<^verbatim>\<open>x << k\<close> on a non-negative \<^verbatim>\<open>int\<close> \<open>x\<close>.\<close>

definition shl_int :: "int \<Rightarrow> int \<Rightarrow> error + int" where
  "shl_int x k =
     (if k < 0 \<or> 32 \<le> k then Inl ShiftRange
      else if x < 0 \<or> INT_MAX < x * 2 ^ nat k then Inl SignedOverflow
      else Inr (x * 2 ^ nat k))"

section \<open>Data model\<close>

text \<open>
  The globals \<^verbatim>\<open>s\<close>, \<^verbatim>\<open>E\<close> and \<^verbatim>\<open>b\<close> are written once by \<^verbatim>\<open>main\<close> from the options
  \<^verbatim>\<open>-s\<close>, \<^verbatim>\<open>-E\<close>, \<^verbatim>\<open>-b\<close> and only read afterwards. The derived globals \<^verbatim>\<open>S\<close> and
  \<^verbatim>\<open>B\<close> are recomputed from them at every use, so they are local values here.
\<close>

record geometry =
  opt_s :: int
  opt_E :: int
  opt_b :: int

text \<open>\<^verbatim>\<open>struct cache_line\<close>: \<^verbatim>\<open>valid\<close> is a \<^verbatim>\<open>char\<close> holding \<open>'0'\<close> or \<open>'1'\<close>.\<close>

record cache_line =
  valid :: char
  tag :: mem_addr_t
  count :: int

type_synonym cache_set_t = "cache_line list"
type_synonym cache_t = "cache_set_t list"

text \<open>The mutable globals: the cache and the three counters.\<close>

record sim =
  cache :: cache_t
  hit_cnt :: int
  miss_cnt :: int
  evict_cnt :: int

section \<open>initCache\<close>

text \<open>
  \<^verbatim>\<open>S = 2 << (s-1)\<close>, then \<open>S\<close> sets of \<open>E\<close> lines, every line
  \<open>{valid = '0', tag = 0, count = 0}\<close>. A negative \<open>E\<close> turns into an allocation
  request of almost \<open>2^64\<close> bytes, which \<^verbatim>\<open>malloc\<close> refuses, and the program exits.
  The model describes the runs in which the other allocations succeed. The counters are
  0, their value at program start, when \<^verbatim>\<open>main\<close> calls \<^verbatim>\<open>initCache\<close>.
\<close>

definition empty_line :: cache_line where
  "empty_line = \<lparr>valid = CHR ''0'', tag = 0, count = 0\<rparr>"

definition initCache :: "geometry \<Rightarrow> error + sim" where
  "initCache g =
     bindE (add_int (opt_s g) (- 1)) (\<lambda>s1.
     bindE (shl_int 2 s1) (\<lambda>S.
       if opt_E g < 0 then Inl AllocFailed
       else Inr \<lparr>cache = replicate (nat S) (replicate (nat (opt_E g)) empty_line),
                 hit_cnt = 0, miss_cnt = 0, evict_cnt = 0\<rparr>))"

section \<open>accessData\<close>

subsection \<open>Address decoding (lines 121-124)\<close>

text \<open>
  \<open>B * S\<close> is an \<^verbatim>\<open>int\<close> product; it, \<open>B\<close> and \<open>S\<close> are converted to
  \<^verbatim>\<open>unsigned long long\<close> for the divisions. The result is \<open>(addrTag, setNum)\<close>.
\<close>

definition decode_addr :: "geometry \<Rightarrow> mem_addr_t \<Rightarrow> error + (mem_addr_t \<times> mem_addr_t)" where
  "decode_addr g addr =
     bindE (add_int (opt_s g) (- 1)) (\<lambda>s1.
     bindE (shl_int 2 s1) (\<lambda>S.
     bindE (add_int (opt_b g) (- 1)) (\<lambda>b1.
     bindE (shl_int 2 b1) (\<lambda>B.
     bindE (mul_int B S) (\<lambda>BS.
       if (word_of_int BS :: mem_addr_t) = 0 \<or> (word_of_int B :: mem_addr_t) = 0
          \<or> (word_of_int S :: mem_addr_t) = 0
       then Inl DivByZero
       else Inr (addr div word_of_int BS, (addr div word_of_int B) mod word_of_int S))))))"

subsection \<open>The working state of one call\<close>

text \<open>
  \<open>lns\<close> is the set \<^verbatim>\<open>*(cache + setNum)\<close>; \<open>mostRecent\<close>, \<open>leastRecent\<close> and
  \<open>found\<close> are the locals of \<^verbatim>\<open>accessData\<close>; \<open>hits\<close>, \<open>misses\<close> and \<open>evicts\<close> are
  the three global counters while the call runs.
\<close>

record frame =
  lns :: cache_set_t
  mostRecent :: int
  leastRecent :: int
  found :: bool
  hits :: int
  misses :: int
  evicts :: int

text \<open>Lines 129-138: the largest and the smallest \<open>count\<close> of the set.\<close>

definition scan_recency :: "nat \<Rightarrow> cache_set_t \<Rightarrow> int \<times> int" where
  "scan_recency n ls =
     fold (\<lambda>i (mr, lr). (if mr < count (ls ! i) then count (ls ! i) else mr,
                          if lr > count (ls ! i) then count (ls ! i) else lr))
          [0..<n] (count (ls ! 0), count (ls ! 0))"

text \<open>Lines 149-153 and 170-174: lower \<open>leastRecent\<close> to the smallest \<open>count\<close>.\<close>

definition refresh_least :: "nat \<Rightarrow> cache_set_t \<Rightarrow> int \<Rightarrow> int" where
  "refresh_least n ls lr0 =
     fold (\<lambda>t lr. if lr > count (ls ! t) then count (ls ! t) else lr) [0..<n] lr0"

text \<open>Lines 144-153: the body of the hit loop at a matching line \<open>i\<close>.\<close>

definition hit_body :: "nat \<Rightarrow> nat \<Rightarrow> frame \<Rightarrow> error + frame" where
  "hit_body n i f =
     bindE (add_int (hits f) 1) (\<lambda>h.
     bindE (add_int (mostRecent f) 1) (\<lambda>m.
     bindE (add_int (leastRecent f) 1) (\<lambda>l.
       let ls = (lns f)[i := (lns f ! i)\<lparr>count := m\<rparr>]
       in Inr (f\<lparr>lns := ls, mostRecent := m, leastRecent := refresh_least n ls l,
                  found := True, hits := h\<rparr>))))"

text \<open>Lines 141-155: the hit loop has no \<^verbatim>\<open>break\<close>; it visits every index.\<close>

fun hit_loop :: "nat \<Rightarrow> mem_addr_t \<Rightarrow> nat list \<Rightarrow> frame \<Rightarrow> error + frame" where
  "hit_loop n t [] f = Inr f"
| "hit_loop n t (i # is) f =
     (if tag (lns f ! i) = t \<and> valid (lns f ! i) = CHR ''1''
      then bindE (hit_body n i f) (hit_loop n t is)
      else hit_loop n t is f)"

text \<open>Lines 164-174: fill the empty line \<open>j\<close>.\<close>

definition install_body :: "nat \<Rightarrow> mem_addr_t \<Rightarrow> nat \<Rightarrow> frame \<Rightarrow> error + frame" where
  "install_body n t j f =
     bindE (add_int (mostRecent f) 1) (\<lambda>m.
     bindE (add_int (leastRecent f) 1) (\<lambda>l.
       let ls = (lns f)[j := (lns f ! j)\<lparr>valid := CHR ''1'', tag := t, count := m\<rparr>]
       in Inr (f\<lparr>lns := ls, mostRecent := m, leastRecent := refresh_least n ls l,
                  found := True\<rparr>)))"

text \<open>Lines 162-177: the first line whose \<open>valid\<close> is \<open>'0'\<close> is filled, then \<^verbatim>\<open>break\<close>.\<close>

fun install_loop :: "nat \<Rightarrow> mem_addr_t \<Rightarrow> nat list \<Rightarrow> frame \<Rightarrow> error + frame" where
  "install_loop n t [] f = Inr f"
| "install_loop n t (j # js) f =
     (if valid (lns f ! j) = CHR ''0'' then install_body n t j f
      else install_loop n t js f)"

text \<open>Lines 183-188: replace line \<open>m\<close>.\<close>

definition evict_body :: "mem_addr_t \<Rightarrow> nat \<Rightarrow> frame \<Rightarrow> error + frame" where
  "evict_body t m f =
     bindE (add_int (mostRecent f) 1) (\<lambda>mr.
     bindE (add_int (leastRecent f) 1) (\<lambda>l.
     bindE (add_int (evicts f) 1) (\<lambda>e.
       Inr (f\<lparr>lns := (lns f)[m := (lns f ! m)\<lparr>tag := t, count := mr\<rparr>],
               mostRecent := mr, leastRecent := l, found := True, evicts := e\<rparr>))))"

text \<open>Lines 181-191: the first line whose \<open>count\<close> is \<open>leastRecent\<close>, then \<^verbatim>\<open>break\<close>.\<close>

fun evict_loop :: "mem_addr_t \<Rightarrow> nat list \<Rightarrow> frame \<Rightarrow> error + frame" where
  "evict_loop t [] f = Inr f"
| "evict_loop t (m # ms) f =
     (if count (lns f ! m) = leastRecent f then evict_body t m f
      else evict_loop t ms f)"

text \<open>Lines 158-193.\<close>

definition miss_branch :: "nat \<Rightarrow> mem_addr_t \<Rightarrow> frame \<Rightarrow> error + frame" where
  "miss_branch n t f =
     bindE (add_int (misses f) 1) (\<lambda>m.
     bindE (install_loop n t [0..<n] (f\<lparr>misses := m\<rparr>)) (\<lambda>f'.
       if \<not> found f' then evict_loop t [0..<n] f' else Inr f'))"

text \<open>Lines 126-193 on the selected set.\<close>

definition access_set :: "nat \<Rightarrow> mem_addr_t \<Rightarrow> frame \<Rightarrow> error + frame" where
  "access_set n t f =
     bindE (hit_loop n t [0..<n] f) (\<lambda>f'.
       if \<not> found f' then miss_branch n t f' else Inr f')"

text \<open>
  The locals and counters when the loops start (lines 118-138), and the globals when the
  call returns: the set at \<open>setNum\<close> and the three counters are what the loops left.
\<close>

definition enter :: "nat \<Rightarrow> cache_set_t \<Rightarrow> sim \<Rightarrow> frame" where
  "enter n ls st =
     (let (mr, lr) = scan_recency n ls
      in \<lparr>lns = ls, mostRecent = mr, leastRecent = lr, found = False,
          hits = hit_cnt st, misses = miss_cnt st, evicts = evict_cnt st\<rparr>)"

definition leave :: "sim \<Rightarrow> nat \<Rightarrow> frame \<Rightarrow> sim" where
  "leave st k f =
     st\<lparr>cache := (cache st)[k := lns f],
        hit_cnt := hits f, miss_cnt := misses f, evict_cnt := evicts f\<rparr>"

text \<open>
  The whole function. The set is read at index 0 before the loops and at the indices
  below \<open>E\<close> in them, so the call is defined only when the set has a line 0 and at
  least \<open>E\<close> lines.
\<close>

definition accessData :: "geometry \<Rightarrow> sim \<Rightarrow> mem_addr_t \<Rightarrow> error + sim" where
  "accessData g st addr =
     bindE (decode_addr g addr) (\<lambda>(addrTag, setNum).
       if \<not> unat setNum < length (cache st) then Inl OutOfBounds
       else
         let ls = cache st ! unat setNum; n = nat (opt_E g) in
         if \<not> (0 < length ls \<and> n \<le> length ls) then Inl OutOfBounds
         else bindE (access_set n addrTag (enter n ls st)) (\<lambda>f. Inr (leave st (unat setNum) f)))"

section \<open>replayTrace\<close>

text \<open>
  One event stands for one line of the trace file: its operation letter (\<open>L\<close>, \<open>S\<close>,
  \<open>M\<close> or \<open>I\<close>) and its address. Reading and tokenising the file is not modelled. Lines
  222-229: a load or a store is one access, a modify is two accesses at the same
  address, an instruction fetch is none.
\<close>

datatype operation = Load | Store | Modify | InstructionFetch

type_synonym event = "operation \<times> mem_addr_t"

fun replayEvent :: "geometry \<Rightarrow> sim \<Rightarrow> event \<Rightarrow> error + sim" where
  "replayEvent g st (Load, a) = accessData g st a"
| "replayEvent g st (Store, a) = accessData g st a"
| "replayEvent g st (Modify, a) = bindE (accessData g st a) (\<lambda>st'. accessData g st' a)"
| "replayEvent g st (InstructionFetch, a) = Inr st"

fun replayTrace :: "geometry \<Rightarrow> sim \<Rightarrow> event list \<Rightarrow> error + sim" where
  "replayTrace g st [] = Inr st"
| "replayTrace g st (ev # evs) = bindE (replayEvent g st ev) (\<lambda>st'. replayTrace g st' evs)"

text \<open>The states of a run: a fresh cache, then any number of completed accesses.\<close>

inductive reachable :: "geometry \<Rightarrow> sim \<Rightarrow> bool" for g :: geometry where
  fresh: "initCache g = Inr st \<Longrightarrow> reachable g st"
| access: "reachable g st \<Longrightarrow> accessData g st a = Inr st' \<Longrightarrow> reachable g st'"

section \<open>Invariants of a run\<close>

text \<open>
  A set is well formed when every \<open>valid\<close> is \<open>'0'\<close> or \<open>'1'\<close> and two different
  valid lines differ in their tags and in their counts.
\<close>

definition set_ok :: "cache_set_t \<Rightarrow> bool" where
  "set_ok ls \<longleftrightarrow>
     (\<forall>i<length ls. valid (ls ! i) = CHR ''0'' \<or> valid (ls ! i) = CHR ''1'') \<and>
     (\<forall>i<length ls. \<forall>j<length ls.
        i \<noteq> j \<and> valid (ls ! i) = CHR ''1'' \<and> valid (ls ! j) = CHR ''1'' \<longrightarrow>
        tag (ls ! i) \<noteq> tag (ls ! j) \<and> count (ls ! i) \<noteq> count (ls ! j))"

text \<open>
  A state is well formed when there are \<open>2^s\<close> sets of \<open>E\<close> lines, each well formed,
  no count is negative or larger than the number of accesses so far, and the counters
  are ordered \<open>0 \<le> evict_cnt \<le> miss_cnt\<close>, \<open>0 \<le> hit_cnt\<close>.
\<close>

definition sim_ok :: "geometry \<Rightarrow> sim \<Rightarrow> bool" where
  "sim_ok g st \<longleftrightarrow>
     1 \<le> opt_s g \<and> opt_s g \<le> 30 \<and> length (cache st) = 2 ^ nat (opt_s g) \<and>
     (\<forall>k<length (cache st).
        length (cache st ! k) = nat (opt_E g) \<and> set_ok (cache st ! k) \<and>
        (\<forall>i<length (cache st ! k).
           0 \<le> count (cache st ! k ! i) \<and> count (cache st ! k ! i) \<le> hit_cnt st + miss_cnt st)) \<and>
     0 \<le> hit_cnt st \<and> 0 \<le> evict_cnt st \<and> evict_cnt st \<le> miss_cnt st"

text \<open>The number of \<^verbatim>\<open>accessData\<close> calls that replaying a trace makes.\<close>

fun calls :: "event list \<Rightarrow> nat" where
  "calls [] = 0"
| "calls ((Load, a) # evs) = 1 + calls evs"
| "calls ((Store, a) # evs) = 1 + calls evs"
| "calls ((Modify, a) # evs) = 2 + calls evs"
| "calls ((InstructionFetch, a) # evs) = calls evs"

section \<open>An example run\<close>

text \<open>
  Two sets of two lines, 2-byte blocks. After a load of \<open>0x0\<close>, a store to \<open>0x4\<close> and
  another load of \<open>0x0\<close>, set 0 is full (tag 0 touched last, tag 1 before it) and set 1
  is empty.
\<close>

definition demo :: geometry where
  "demo = \<lparr>opt_s = 1, opt_E = 2, opt_b = 1\<rparr>"

definition demo_trace :: "event list" where
  "demo_trace = [(Load, 0), (Store, 4), (Load, 0)]"

definition demo_warm :: sim where
  "demo_warm =
     \<lparr>cache = [[\<lparr>valid = CHR ''1'', tag = 0, count = 3\<rparr>,
                \<lparr>valid = CHR ''1'', tag = 1, count = 2\<rparr>],
               [\<lparr>valid = CHR ''0'', tag = 0, count = 0\<rparr>,
                \<lparr>valid = CHR ''0'', tag = 0, count = 0\<rparr>]],
      hit_cnt = 1, miss_cnt = 2, evict_cnt = 0\<rparr>"

section \<open>Auxiliary facts\<close>

subsection \<open>Sequencing and checked increments\<close>

lemma bindE_Inr [simp]: "bindE (Inr x) k = k x"
  by (simp add: bindE_def)

lemma bindE_Inl [simp]: "bindE (Inl e) k = Inl e"
  by (simp add: bindE_def)

lemma bindE_eq_Inr: "bindE m k = Inr y \<longleftrightarrow> (\<exists>x. m = Inr x \<and> k x = Inr y)"
  by (cases m) simp_all

lemma add_int_one: "add_int x 1 = Inr y \<longleftrightarrow> INT_MIN \<le> x + 1 \<and> x < INT_MAX \<and> y = x + 1"
  by (auto simp: add_int_def)

lemma add_int_one_ok: "0 \<le> x \<Longrightarrow> x < INT_MAX \<Longrightarrow> add_int x 1 = Inr (x + 1)"
  by (simp add: add_int_def INT_MIN_def)

subsection \<open>The scan for the largest and the smallest count\<close>

lemma scan_fold_fst:
  "fst (fold (\<lambda>i (mr, lr). (if mr < count (ls ! i) then count (ls ! i) else mr,
                          if lr > count (ls ! i) then count (ls ! i) else lr)) is p)
   = fold (\<lambda>i mr. max mr (count (ls ! i))) is (fst p)"
  by (induction "is" arbitrary: p) (auto simp: max_def split: prod.splits)

lemma scan_fold_snd:
  "snd (fold (\<lambda>i (mr, lr). (if mr < count (ls ! i) then count (ls ! i) else mr,
                          if lr > count (ls ! i) then count (ls ! i) else lr)) is p)
   = fold (\<lambda>i lr. min lr (count (ls ! i))) is (snd p)"
  by (induction "is" arbitrary: p) (auto simp: min_def split: prod.splits)

lemma fold_max_ge: "a \<le> fold (\<lambda>i mr. max mr (count (ls ! i))) is (a::int)"
proof (induction "is" arbitrary: a)
  case Nil then show ?case by simp
next
  case (Cons j js)
  have "a \<le> max a (count (ls ! j))" by simp
  also have "\<dots> \<le> fold (\<lambda>i mr. max mr (count (ls ! i))) js (max a (count (ls ! j)))"
    by (rule Cons.IH)
  finally show ?case by simp
qed

lemma fold_max_upper:
  "i \<in> set is \<Longrightarrow> count (ls ! i) \<le> fold (\<lambda>i mr. max mr (count (ls ! i))) is a"
proof (induction "is" arbitrary: a)
  case Nil then show ?case by simp
next
  case (Cons j js)
  show ?case
  proof (cases "i = j")
    case True
    have "count (ls ! j) \<le> max a (count (ls ! j))" by simp
    also have "\<dots> \<le> fold (\<lambda>i mr. max mr (count (ls ! i))) js (max a (count (ls ! j)))"
      by (rule fold_max_ge)
    finally show ?thesis using True by simp
  next
    case False
    with Cons show ?thesis by simp
  qed
qed

lemma fold_max_attained:
  "fold (\<lambda>i mr. max mr (count (ls ! i))) is a = a
   \<or> (\<exists>i\<in>set is. fold (\<lambda>i mr. max mr (count (ls ! i))) is a = count (ls ! i))"
proof (induction "is" arbitrary: a)
  case Nil then show ?case by simp
next
  case (Cons j js)
  from Cons[of "max a (count (ls ! j))"] show ?case
    by (auto simp: max_def split: if_splits)
qed

lemma fold_min_le: "fold (\<lambda>i lr. min lr (count (ls ! i))) is (a::int) \<le> a"
proof (induction "is" arbitrary: a)
  case Nil then show ?case by simp
next
  case (Cons j js)
  have "fold (\<lambda>i lr. min lr (count (ls ! i))) js (min a (count (ls ! j))) \<le> min a (count (ls ! j))"
    by (rule Cons.IH)
  also have "\<dots> \<le> a" by simp
  finally show ?case by simp
qed

lemma fold_min_lower:
  "i \<in> set is \<Longrightarrow> fold (\<lambda>i lr. min lr (count (ls ! i))) is a \<le> count (ls ! i)"
proof (induction "is" arbitrary: a)
  case Nil then show ?case by simp
next
  case (Cons j js)
  show ?case
  proof (cases "i = j")
    case True
    have "fold (\<lambda>i lr. min lr (count (ls ! i))) js (min a (count (ls ! j))) \<le> min a (count (ls ! j))"
      by (rule fold_min_le)
    also have "\<dots> \<le> count (ls ! j)" by simp
    finally show ?thesis using True by simp
  next
    case False
    with Cons show ?thesis by simp
  qed
qed

lemma fold_min_attained:
  "fold (\<lambda>i lr. min lr (count (ls ! i))) is a = a
   \<or> (\<exists>i\<in>set is. fold (\<lambda>i lr. min lr (count (ls ! i))) is a = count (ls ! i))"
proof (induction "is" arbitrary: a)
  case Nil then show ?case by simp
next
  case (Cons j js)
  from Cons[of "min a (count (ls ! j))"] show ?case
    by (auto simp: min_def split: if_splits)
qed

lemma scan_recency_max:
  assumes "scan_recency n ls = (mr, lr)" and "0 < n"
  shows "(\<forall>i<n. count (ls ! i) \<le> mr) \<and> (\<exists>i<n. count (ls ! i) = mr)"
proof -
  let ?F = "fold (\<lambda>i mr. max mr (count (ls ! i))) [0..<n] (count (ls ! 0))"
  have mr: "mr = ?F"
    using assms(1) scan_fold_fst[of ls "[0..<n]" "(count (ls ! 0), count (ls ! 0))"]
    by (simp add: scan_recency_def)
  have "\<forall>i<n. count (ls ! i) \<le> ?F"
    using fold_max_upper[of _ "[0..<n]" ls "count (ls ! 0)"] by simp
  moreover have "\<exists>i<n. count (ls ! i) = ?F"
    using fold_max_attained[of ls "[0..<n]" "count (ls ! 0)"] assms(2) by auto
  ultimately show ?thesis using mr by simp
qed

lemma scan_recency_min:
  assumes "scan_recency n ls = (mr, lr)" and "0 < n"
  shows "(\<forall>i<n. lr \<le> count (ls ! i)) \<and> (\<exists>i<n. count (ls ! i) = lr)"
proof -
  let ?F = "fold (\<lambda>i lr. min lr (count (ls ! i))) [0..<n] (count (ls ! 0))"
  have lr: "lr = ?F"
    using assms(1) scan_fold_snd[of ls "[0..<n]" "(count (ls ! 0), count (ls ! 0))"]
    by (simp add: scan_recency_def)
  have "\<forall>i<n. ?F \<le> count (ls ! i)"
    using fold_min_lower[of _ "[0..<n]" ls "count (ls ! 0)"] by simp
  moreover have "\<exists>i<n. count (ls ! i) = ?F"
    using fold_min_attained[of ls "[0..<n]" "count (ls ! 0)"] assms(2) by auto
  ultimately show ?thesis using lr by simp
qed

subsection \<open>The hit, fill and replacement loops\<close>

lemma hit_loop_append:
  "hit_loop n t (xs @ ys) f = bindE (hit_loop n t xs f) (hit_loop n t ys)"
proof (induction xs arbitrary: f)
  case Nil then show ?case by simp
next
  case (Cons i xs)
  show ?case
  proof (cases "hit_body n i f")
    case (Inl e) then show ?thesis using Cons by simp
  next
    case (Inr f') then show ?thesis using Cons by simp
  qed
qed

lemma hit_loop_nomatch:
  "\<forall>i\<in>set is. \<not> (tag (lns f ! i) = t \<and> valid (lns f ! i) = CHR ''1'') \<Longrightarrow>
   hit_loop n t is f = Inr f"
  by (induction "is") auto

lemma hit_body_Inr:
  "hit_body n i f = Inr f' \<Longrightarrow>
   lns f' = (lns f)[i := (lns f ! i)\<lparr>count := mostRecent f + 1\<rparr>] \<and>
   mostRecent f' = mostRecent f + 1 \<and> found f' \<and>
   hits f' = hits f + 1 \<and> misses f' = misses f \<and> evicts f' = evicts f \<and>
   hits f < INT_MAX \<and> mostRecent f < INT_MAX"
  by (auto simp: hit_body_def bindE_eq_Inr add_int_one Let_def)

lemma hit_body_ok:
  "0 \<le> hits f \<Longrightarrow> hits f < INT_MAX \<Longrightarrow> 0 \<le> leastRecent f \<Longrightarrow>
   leastRecent f \<le> mostRecent f \<Longrightarrow> mostRecent f < INT_MAX \<Longrightarrow>
   \<exists>f'. hit_body n i f = Inr f'"
  by (simp add: hit_body_def add_int_one_ok Let_def)

lemma hit_loop_single:
  assumes i: "i < n"
    and m: "tag (lns f ! i) = t \<and> valid (lns f ! i) = CHR ''1''"
    and others: "\<forall>j<n. j \<noteq> i \<longrightarrow> \<not> (tag (lns f ! j) = t \<and> valid (lns f ! j) = CHR ''1'')"
  shows "hit_loop n t [0..<n] f = hit_body n i f"
proof -
  have split: "[0..<n] = [0..<i] @ i # [Suc i..<n]"
    using i by (metis le_add2 le_add_same_cancel2 less_imp_add_positive upt_add_eq_append upt_conv_Cons)
  have pre: "hit_loop n t [0..<i] f = Inr f"
    using others i by (intro hit_loop_nomatch) auto
  show ?thesis
  proof (cases "hit_body n i f")
    case (Inl e)
    then show ?thesis using split pre m by (simp add: hit_loop_append)
  next
    case (Inr f')
    have l: "lns f' = (lns f)[i := (lns f ! i)\<lparr>count := mostRecent f + 1\<rparr>]"
      using hit_body_Inr[OF Inr] by simp
    have "hit_loop n t [Suc i..<n] f' = Inr f'"
      using others by (intro hit_loop_nomatch) (auto simp: l)
    then show ?thesis using split pre m Inr by (simp add: hit_loop_append)
  qed
qed

lemma install_loop_skip:
  "\<forall>j\<in>set xs. valid (lns f ! j) \<noteq> CHR ''0'' \<Longrightarrow>
   install_loop n t (xs @ ys) f = install_loop n t ys f"
  by (induction xs) auto

lemma install_loop_first:
  assumes "j < n" and "valid (lns f ! j) = CHR ''0''"
    and "\<forall>i<j. valid (lns f ! i) \<noteq> CHR ''0''"
  shows "install_loop n t [0..<n] f = install_body n t j f"
proof -
  have split: "[0..<n] = [0..<j] @ j # [Suc j..<n]"
    using assms(1) by (metis le_add2 le_add_same_cancel2 less_imp_add_positive upt_add_eq_append upt_conv_Cons)
  have "install_loop n t ([0..<j] @ j # [Suc j..<n]) f = install_loop n t (j # [Suc j..<n]) f"
    using assms(3) by (intro install_loop_skip) auto
  then show ?thesis using split assms(2) by simp
qed

lemma install_loop_none:
  assumes "\<forall>j<n. valid (lns f ! j) \<noteq> CHR ''0''"
  shows "install_loop n t [0..<n] f = Inr f"
proof -
  have "install_loop n t ([0..<n] @ []) f = install_loop n t [] f"
    using assms by (intro install_loop_skip) auto
  then show ?thesis by simp
qed

lemma install_body_Inr:
  "install_body n t j f = Inr f' \<Longrightarrow>
   lns f' = (lns f)[j := (lns f ! j)\<lparr>valid := CHR ''1'', tag := t, count := mostRecent f + 1\<rparr>] \<and>
   found f' \<and> hits f' = hits f \<and> misses f' = misses f \<and> evicts f' = evicts f \<and>
   mostRecent f < INT_MAX"
  by (auto simp: install_body_def bindE_eq_Inr add_int_one Let_def)

lemma install_body_ok:
  "0 \<le> leastRecent f \<Longrightarrow> leastRecent f \<le> mostRecent f \<Longrightarrow> mostRecent f < INT_MAX \<Longrightarrow>
   \<exists>f'. install_body n t j f = Inr f'"
  by (simp add: install_body_def add_int_one_ok Let_def)

lemma evict_loop_skip:
  "\<forall>j\<in>set xs. count (lns f ! j) \<noteq> leastRecent f \<Longrightarrow>
   evict_loop t (xs @ ys) f = evict_loop t ys f"
  by (induction xs) auto

lemma evict_loop_first:
  assumes "m < n" and "count (lns f ! m) = leastRecent f"
    and "\<forall>i<m. count (lns f ! i) \<noteq> leastRecent f"
  shows "evict_loop t [0..<n] f = evict_body t m f"
proof -
  have split: "[0..<n] = [0..<m] @ m # [Suc m..<n]"
    using assms(1) by (metis le_add2 le_add_same_cancel2 less_imp_add_positive upt_add_eq_append upt_conv_Cons)
  have "evict_loop t ([0..<m] @ m # [Suc m..<n]) f = evict_loop t (m # [Suc m..<n]) f"
    using assms(3) by (intro evict_loop_skip) auto
  then show ?thesis using split assms(2) by simp
qed

lemma evict_body_Inr:
  "evict_body t m f = Inr f' \<Longrightarrow>
   lns f' = (lns f)[m := (lns f ! m)\<lparr>tag := t, count := mostRecent f + 1\<rparr>] \<and>
   found f' \<and> hits f' = hits f \<and> misses f' = misses f \<and> evicts f' = evicts f + 1 \<and>
   mostRecent f < INT_MAX \<and> evicts f < INT_MAX"
  by (auto simp: evict_body_def bindE_eq_Inr add_int_one Let_def)

lemma evict_body_ok:
  "0 \<le> leastRecent f \<Longrightarrow> leastRecent f \<le> mostRecent f \<Longrightarrow> mostRecent f < INT_MAX \<Longrightarrow>
   0 \<le> evicts f \<Longrightarrow> evicts f < INT_MAX \<Longrightarrow>
   \<exists>f'. evict_body t m f = Inr f'"
  by (simp add: evict_body_def add_int_one_ok)

subsection \<open>Shifts, products and the decoder\<close>

lemma two_shl:
  "shl_int 2 (x - 1) = (if x < 1 \<or> 32 < x then Inl ShiftRange
                        else if 30 < x then Inl SignedOverflow else Inr (2 ^ nat x))"
proof -
  have pw: "2 * 2 ^ nat (x - 1) = (2::int) ^ nat x" if "1 \<le> x"
  proof -
    have "nat x = Suc (nat (x - 1))" using that by simp
    then show ?thesis by (metis power_Suc)
  qed
  have small: "(2::int) ^ nat x \<le> INT_MAX" if "1 \<le> x" "x \<le> 30"
  proof -
    have "(2::int) ^ nat x \<le> 2 ^ 30" using that by (intro power_increasing) auto
    then show ?thesis by (simp add: INT_MAX_def)
  qed
  have big: "INT_MAX < (2::int) ^ nat x" if "30 < x"
  proof -
    have "(2::int) ^ 31 \<le> 2 ^ nat x" using that by (intro power_increasing) auto
    then show ?thesis by (simp add: INT_MAX_def)
  qed
  consider "x < 1" | "32 < x" | "1 \<le> x" "x \<le> 30" | "30 < x" "x \<le> 32" by linarith
  then show ?thesis
  proof cases
    case 1 then show ?thesis by (simp add: shl_int_def)
  next
    case 2 then show ?thesis by (simp add: shl_int_def)
  next
    case 3
    then show ?thesis using pw[OF 3(1)] small[OF 3] by (simp add: shl_int_def)
  next
    case 4
    then show ?thesis using pw[of ] big[OF 4(1)] by (simp add: shl_int_def)
  qed
qed

lemma sub_one_pos: "1 \<le> x \<Longrightarrow> x \<le> 32 \<Longrightarrow> add_int x (- 1) = Inr (x - 1)"
  by (simp add: add_int_def INT_MIN_def INT_MAX_def)

lemma sub_one_Inr: "add_int x (- 1) = Inr y \<Longrightarrow> y = x - 1"
  by (auto simp: add_int_def split: if_splits)

lemma pow2_word_unat: "n < 64 \<Longrightarrow> unat ((2::mem_addr_t) ^ n) = 2 ^ n"
proof -
  assume n: "n < 64"
  have lt: "(2::nat) ^ n < 2 ^ 64"
    using n by (intro power_strict_increasing) auto
  have "(2::mem_addr_t) ^ n = of_nat (2 ^ n)" by simp
  then have "unat ((2::mem_addr_t) ^ n) = take_bit 64 ((2::nat) ^ n)"
    by (simp only: unsigned_of_nat) simp
  also have "\<dots> = 2 ^ n"
    using lt by (rule take_bit_nat_eq_self)
  finally show ?thesis .
qed

lemma pow2_word_nz: "n < 64 \<Longrightarrow> (2::mem_addr_t) ^ n \<noteq> 0"
  by (metis pow2_word_unat unat_0 power_not_zero zero_neq_numeral)

lemma mul_pow: "mul_int (2 ^ m) (2 ^ n) = (if m + n \<le> 30 then Inr (2 ^ (m + n)) else Inl SignedOverflow)"
proof -
  have small: "(2::int) ^ (m + n) \<le> INT_MAX" if "m + n \<le> 30"
  proof -
    have "(2::int) ^ (m + n) \<le> 2 ^ 30" using that by (intro power_increasing) auto
    then show ?thesis by (simp add: INT_MAX_def)
  qed
  have big: "INT_MAX < (2::int) ^ (m + n)" if "30 < m + n"
  proof -
    have "(2::int) ^ 31 \<le> 2 ^ (m + n)" using that by (intro power_increasing) auto
    then show ?thesis by (simp add: INT_MAX_def)
  qed
  have "INT_MIN \<le> (2::int) ^ (m + n)"
    by (rule order_trans[of _ 0]) (simp_all add: INT_MIN_def)
  then show ?thesis using small big
    by (auto simp: mul_int_def power_add not_le)
qed

lemma decode_addr_in_range:
  assumes "1 \<le> opt_s g" "1 \<le> opt_b g" "opt_s g + opt_b g \<le> 30"
  shows "decode_addr g A = Inr (A div 2 ^ (nat (opt_b g) + nat (opt_s g)),
                                (A div 2 ^ nat (opt_b g)) mod 2 ^ nat (opt_s g))"
proof -
  have s: "add_int (opt_s g) (- 1) = Inr (opt_s g - 1)" "shl_int 2 (opt_s g - 1) = Inr (2 ^ nat (opt_s g))"
    using assms by (simp_all add: sub_one_pos two_shl)
  have b: "add_int (opt_b g) (- 1) = Inr (opt_b g - 1)" "shl_int 2 (opt_b g - 1) = Inr (2 ^ nat (opt_b g))"
    using assms by (simp_all add: sub_one_pos two_shl)
  have le: "nat (opt_b g) + nat (opt_s g) \<le> 30" using assms by simp
  have m: "mul_int (2 ^ nat (opt_b g)) (2 ^ nat (opt_s g)) = Inr (2 ^ (nat (opt_b g) + nat (opt_s g)))"
    using le by (simp add: mul_pow)
  have nz: "(2::mem_addr_t) ^ (nat (opt_b g) + nat (opt_s g)) \<noteq> 0"
      "(2::mem_addr_t) ^ nat (opt_b g) \<noteq> 0" "(2::mem_addr_t) ^ nat (opt_s g) \<noteq> 0"
    using le by (simp_all add: pow2_word_nz del: power_eq_0_iff)
  show ?thesis
    unfolding decode_addr_def using nz by (simp add: s b m del: power_eq_0_iff)
qed

lemma decode_addr_out_of_range:
  assumes "decode_addr g A = Inr r"
  shows "1 \<le> opt_s g \<and> 1 \<le> opt_b g \<and> opt_s g + opt_b g \<le> 30"
proof -
  from assms obtain s1 S b1 B BS where
    s1: "add_int (opt_s g) (- 1) = Inr s1" and S: "shl_int 2 s1 = Inr S"
    and b1: "add_int (opt_b g) (- 1) = Inr b1" and B: "shl_int 2 b1 = Inr B"
    and BS: "mul_int B S = Inr BS"
    unfolding decode_addr_def by (auto simp: bindE_eq_Inr)
  have s1': "s1 = opt_s g - 1" and b1': "b1 = opt_b g - 1"
    using s1 b1 by (auto dest: sub_one_Inr)
  have sr: "1 \<le> opt_s g \<and> opt_s g \<le> 30 \<and> S = 2 ^ nat (opt_s g)"
    using S unfolding s1' two_shl by (auto split: if_splits)
  have br: "1 \<le> opt_b g \<and> opt_b g \<le> 30 \<and> B = 2 ^ nat (opt_b g)"
    using B unfolding b1' two_shl by (auto split: if_splits)
  have "nat (opt_b g) + nat (opt_s g) \<le> 30"
    using BS sr br by (simp add: mul_pow split: if_splits)
  then show ?thesis using sr br by simp
qed

lemma unat_div_pow2: "n < 64 \<Longrightarrow> unat ((A::mem_addr_t) div 2 ^ n) = unat A div 2 ^ n"
  by (simp add: unat_div pow2_word_unat)

lemma unat_mod_pow2: "n < 64 \<Longrightarrow> unat ((A::mem_addr_t) mod 2 ^ n) = unat A mod 2 ^ n"
  by (simp add: unat_mod pow2_word_unat)

lemma initCache_Inr:
  "initCache g = Inr st \<longleftrightarrow>
   1 \<le> opt_s g \<and> opt_s g \<le> 30 \<and> 0 \<le> opt_E g \<and>
   st = \<lparr>cache = replicate (2 ^ nat (opt_s g)) (replicate (nat (opt_E g)) empty_line),
         hit_cnt = 0, miss_cnt = 0, evict_cnt = 0\<rparr>"
proof
  assume a: "initCache g = Inr st"
  then obtain s1 S where s1: "add_int (opt_s g) (- 1) = Inr s1" and S: "shl_int 2 s1 = Inr S"
    and r: "(if opt_E g < 0 then Inl AllocFailed
       else Inr \<lparr>cache = replicate (nat S) (replicate (nat (opt_E g)) empty_line),
                 hit_cnt = 0, miss_cnt = 0, evict_cnt = 0\<rparr>) = Inr st"
    unfolding initCache_def by (auto simp: bindE_eq_Inr)
  have s1': "s1 = opt_s g - 1" using s1 by (rule sub_one_Inr)
  have sr: "1 \<le> opt_s g \<and> opt_s g \<le> 30 \<and> S = 2 ^ nat (opt_s g)"
    using S unfolding s1' two_shl by (auto split: if_splits)
  have "nat ((2::int) ^ nat (opt_s g)) = 2 ^ nat (opt_s g)"
    by (simp add: nat_power_eq)
  then show "1 \<le> opt_s g \<and> opt_s g \<le> 30 \<and> 0 \<le> opt_E g \<and>
   st = \<lparr>cache = replicate (2 ^ nat (opt_s g)) (replicate (nat (opt_E g)) empty_line),
         hit_cnt = 0, miss_cnt = 0, evict_cnt = 0\<rparr>"
    using r sr by (auto split: if_splits)
next
  assume a: "1 \<le> opt_s g \<and> opt_s g \<le> 30 \<and> 0 \<le> opt_E g \<and>
   st = \<lparr>cache = replicate (2 ^ nat (opt_s g)) (replicate (nat (opt_E g)) empty_line),
         hit_cnt = 0, miss_cnt = 0, evict_cnt = 0\<rparr>"
  have "nat ((2::int) ^ nat (opt_s g)) = 2 ^ nat (opt_s g)"
    by (simp add: nat_power_eq)
  then show "initCache g = Inr st"
    using a by (simp add: initCache_def sub_one_pos two_shl)
qed

subsection \<open>One call on the selected set\<close>

lemma enter_fields:
  "lns (enter n ls st) = ls" "found (enter n ls st) = False"
  "hits (enter n ls st) = hit_cnt st" "misses (enter n ls st) = miss_cnt st"
  "evicts (enter n ls st) = evict_cnt st"
  "mostRecent (enter n ls st) = fst (scan_recency n ls)"
  "leastRecent (enter n ls st) = snd (scan_recency n ls)"
  by (simp_all add: enter_def split: prod.splits)

lemma leave_fields:
  "cache (leave st k f) = (cache st)[k := lns f]" "hit_cnt (leave st k f) = hits f"
  "miss_cnt (leave st k f) = misses f" "evict_cnt (leave st k f) = evicts f"
  by (simp_all add: leave_def)

lemma enter_most:
  assumes "0 < n"
  shows "(\<forall>i<n. count (ls ! i) \<le> mostRecent (enter n ls st)) \<and>
         (\<exists>i<n. count (ls ! i) = mostRecent (enter n ls st))"
  using scan_recency_max[OF _ assms, of ls "fst (scan_recency n ls)" "snd (scan_recency n ls)"]
  by (simp add: enter_fields)

lemma enter_least:
  assumes "0 < n"
  shows "(\<forall>i<n. leastRecent (enter n ls st) \<le> count (ls ! i)) \<and>
         (\<exists>i<n. count (ls ! i) = leastRecent (enter n ls st))"
  using scan_recency_min[OF _ assms, of ls "fst (scan_recency n ls)" "snd (scan_recency n ls)"]
  by (simp add: enter_fields)

lemma enter_least_le_most:
  assumes "0 < n"
  shows "leastRecent (enter n ls st) \<le> mostRecent (enter n ls st)"
proof -
  have "leastRecent (enter n ls st) \<le> count (ls ! 0)" using enter_least[OF assms] assms by blast
  also have "\<dots> \<le> mostRecent (enter n ls st)" using enter_most[OF assms] assms by blast
  finally show ?thesis .
qed

text \<open>The three ways through the loops.\<close>

lemma access_set_hit:
  assumes "i < n" and "tag (lns f ! i) = t \<and> valid (lns f ! i) = CHR ''1''"
    and "\<forall>j<n. j \<noteq> i \<longrightarrow> \<not> (tag (lns f ! j) = t \<and> valid (lns f ! j) = CHR ''1'')"
  shows "access_set n t f = hit_body n i f"
proof (cases "hit_body n i f")
  case (Inl e)
  then show ?thesis using hit_loop_single[OF assms] by (simp add: access_set_def)
next
  case (Inr f')
  then show ?thesis using hit_loop_single[OF assms] hit_body_Inr[OF Inr]
    by (simp add: access_set_def)
qed

lemma access_set_miss:
  assumes "\<not> found f"
    and "\<forall>j<n. \<not> (tag (lns f ! j) = t \<and> valid (lns f ! j) = CHR ''1'')"
  shows "access_set n t f = miss_branch n t f"
proof -
  have "hit_loop n t [0..<n] f = Inr f"
    using assms(2) by (intro hit_loop_nomatch) auto
  then show ?thesis using assms(1) by (simp add: access_set_def)
qed

lemma miss_branch_install:
  assumes "j < n" and "valid (lns f ! j) = CHR ''0''"
    and "\<forall>i<j. valid (lns f ! i) \<noteq> CHR ''0''"
  shows "miss_branch n t f = bindE (add_int (misses f) 1) (\<lambda>m. install_body n t j (f\<lparr>misses := m\<rparr>))"
proof (cases "add_int (misses f) 1")
  case (Inl e) then show ?thesis by (simp add: miss_branch_def)
next
  case (Inr m)
  have il: "install_loop n t [0..<n] (f\<lparr>misses := m\<rparr>) = install_body n t j (f\<lparr>misses := m\<rparr>)"
    using assms by (intro install_loop_first) auto
  show ?thesis
  proof (cases "install_body n t j (f\<lparr>misses := m\<rparr>)")
    case (Inl e) then show ?thesis using Inr il by (simp add: miss_branch_def)
  next
    case (Inr f')
    then show ?thesis using \<open>add_int (misses f) 1 = Inr m\<close> il install_body_Inr[OF Inr]
      by (simp add: miss_branch_def)
  qed
qed

lemma miss_branch_evict:
  assumes "\<not> found f" and "\<forall>j<n. valid (lns f ! j) \<noteq> CHR ''0''"
    and "m < n" and "count (lns f ! m) = leastRecent f"
    and "\<forall>i<m. count (lns f ! i) \<noteq> leastRecent f"
  shows "miss_branch n t f = bindE (add_int (misses f) 1) (\<lambda>c. evict_body t m (f\<lparr>misses := c\<rparr>))"
proof (cases "add_int (misses f) 1")
  case (Inl e) then show ?thesis by (simp add: miss_branch_def)
next
  case (Inr c)
  have il: "install_loop n t [0..<n] (f\<lparr>misses := c\<rparr>) = Inr (f\<lparr>misses := c\<rparr>)"
    using assms(2) by (intro install_loop_none) auto
  have el: "evict_loop t [0..<n] (f\<lparr>misses := c\<rparr>) = evict_body t m (f\<lparr>misses := c\<rparr>)"
    using assms(3-5) by (intro evict_loop_first) auto
  show ?thesis using Inr il el assms(1) by (simp add: miss_branch_def)
qed

lemma first_index:
  fixes P :: "nat \<Rightarrow> bool"
  assumes "\<exists>i<n. P i"
  shows "\<exists>j<n. P j \<and> (\<forall>i<j. \<not> P i)"
proof -
  from assms obtain i where i: "i < n" "P i" by blast
  define j where "j = (LEAST i. P i)"
  have 1: "P j" unfolding j_def using i(2) by (rule LeastI)
  have "j \<le> i" unfolding j_def using i(2) by (rule Least_le)
  then have 2: "j < n" using i(1) by simp
  have 3: "\<forall>i<j. \<not> P i" unfolding j_def using not_less_Least by blast
  show ?thesis using 1 2 3 by blast
qed

subsection \<open>One call on a well-formed state\<close>

lemma sim_ok_set:
  assumes "sim_ok g st" and "k < length (cache st)"
  shows "length (cache st ! k) = nat (opt_E g)" and "set_ok (cache st ! k)"
    and "\<And>i. i < length (cache st ! k) \<Longrightarrow> 0 \<le> count (cache st ! k ! i)"
    and "\<And>i. i < length (cache st ! k) \<Longrightarrow> count (cache st ! k ! i) \<le> hit_cnt st + miss_cnt st"
  using assms by (simp_all add: sim_ok_def)

lemma decode_addr_index:
  assumes "sim_ok g st" and "decode_addr g addr = Inr (t, k)"
  shows "unat k < length (cache st)"
proof -
  have r: "1 \<le> opt_s g \<and> 1 \<le> opt_b g \<and> opt_s g + opt_b g \<le> 30"
    using assms(2) by (rule decode_addr_out_of_range)
  then have "k = (addr div 2 ^ nat (opt_b g)) mod 2 ^ nat (opt_s g)"
    using assms(2) decode_addr_in_range[of g addr] by simp
  moreover have "nat (opt_s g) < 64" using r by linarith
  ultimately have "unat k = unat (addr div 2 ^ nat (opt_b g)) mod 2 ^ nat (opt_s g)"
    by (simp add: unat_mod_pow2)
  then have "unat k < 2 ^ nat (opt_s g)" by simp
  then show ?thesis using assms(1) by (simp add: sim_ok_def)
qed

lemma accessData_unfold:
  assumes "sim_ok g st" and "decode_addr g addr = Inr (t, k)" and "0 < length (cache st ! unat k)"
  shows "accessData g st addr =
         bindE (access_set (nat (opt_E g)) t (enter (nat (opt_E g)) (cache st ! unat k) st))
               (\<lambda>f. Inr (leave st (unat k) f))"
proof -
  have k: "unat k < length (cache st)" using assms(1,2) by (rule decode_addr_index)
  have len: "length (cache st ! unat k) = nat (opt_E g)" using assms(1) k by (rule sim_ok_set)
  have "0 < length (cache st ! unat k) \<and> nat (opt_E g) \<le> length (cache st ! unat k)"
    using assms(3) len by linarith
  then show ?thesis using assms(2) k by (simp add: accessData_def Let_def)
qed

lemma accessData_empty_set:
  assumes "sim_ok g st" and "decode_addr g addr = Inr (t, k)" and "accessData g st addr = Inr st'"
  shows "0 < length (cache st ! unat k)"
  using assms(2,3) by (auto simp: accessData_def Let_def split: if_splits)

lemma accessData_decodes:
  assumes "accessData g st addr = Inr st'"
  shows "\<exists>t k. decode_addr g addr = Inr (t, k)"
  using assms by (cases "decode_addr g addr") (auto simp: accessData_def)

lemma set_ok_other_tags:
  assumes "set_ok ls" and "i < length ls" and "valid (ls ! i) = CHR ''1''"
    and "j < length ls" and "j \<noteq> i"
  shows "\<not> (tag (ls ! j) = tag (ls ! i) \<and> valid (ls ! j) = CHR ''1'')"
  using assms unfolding set_ok_def by metis

lemma accessData_hit:
  assumes ok: "sim_ok g st" and dec: "decode_addr g addr = Inr (t, k)"
    and i: "i < length (cache st ! unat k)"
    and m: "tag (cache st ! unat k ! i) = t" "valid (cache st ! unat k ! i) = CHR ''1''"
  shows "accessData g st addr =
         bindE (hit_body (nat (opt_E g)) i (enter (nat (opt_E g)) (cache st ! unat k) st))
               (\<lambda>f. Inr (leave st (unat k) f))"
proof -
  let ?ls = "cache st ! unat k" and ?n = "nat (opt_E g)"
  have k: "unat k < length (cache st)" using ok dec by (rule decode_addr_index)
  have len: "length ?ls = ?n" and sok: "set_ok ?ls" using ok k by (rule sim_ok_set)+
  have "\<forall>j<?n. j \<noteq> i \<longrightarrow> \<not> (tag (?ls ! j) = t \<and> valid (?ls ! j) = CHR ''1'')"
    using set_ok_other_tags[OF sok i m(2)] m(1) len by auto
  then have "access_set ?n t (enter ?n ?ls st) = hit_body ?n i (enter ?n ?ls st)"
    using i m len by (intro access_set_hit) (simp_all add: enter_fields)
  moreover have "0 < length ?ls" using i by linarith
  ultimately show ?thesis using accessData_unfold[OF ok dec] by simp
qed

lemma accessData_install:
  assumes ok: "sim_ok g st" and dec: "decode_addr g addr = Inr (t, k)"
    and nomatch: "\<forall>i<length (cache st ! unat k).
        \<not> (tag (cache st ! unat k ! i) = t \<and> valid (cache st ! unat k ! i) = CHR ''1'')"
    and j: "j < length (cache st ! unat k)" "valid (cache st ! unat k ! j) = CHR ''0''"
    and first: "\<forall>i<j. valid (cache st ! unat k ! i) \<noteq> CHR ''0''"
  shows "accessData g st addr =
         bindE (bindE (add_int (miss_cnt st) 1) (\<lambda>c.
                  install_body (nat (opt_E g)) t j
                    (enter (nat (opt_E g)) (cache st ! unat k) st\<lparr>misses := c\<rparr>)))
               (\<lambda>f. Inr (leave st (unat k) f))"
proof -
  let ?ls = "cache st ! unat k" and ?n = "nat (opt_E g)"
  have k: "unat k < length (cache st)" using ok dec by (rule decode_addr_index)
  have len: "length ?ls = ?n" using ok k by (rule sim_ok_set)
  have "access_set ?n t (enter ?n ?ls st) = miss_branch ?n t (enter ?n ?ls st)"
    using nomatch len by (intro access_set_miss) (simp_all add: enter_fields)
  also have "\<dots> = bindE (add_int (misses (enter ?n ?ls st)) 1)
                      (\<lambda>c. install_body ?n t j (enter ?n ?ls st\<lparr>misses := c\<rparr>))"
    using j first len by (intro miss_branch_install) (simp_all add: enter_fields)
  finally have "access_set ?n t (enter ?n ?ls st) =
      bindE (add_int (miss_cnt st) 1) (\<lambda>c. install_body ?n t j (enter ?n ?ls st\<lparr>misses := c\<rparr>))"
    by (simp add: enter_fields)
  moreover have "0 < length ?ls" using j(1) by linarith
  ultimately show ?thesis using accessData_unfold[OF ok dec] by simp
qed

lemma accessData_evict:
  assumes ok: "sim_ok g st" and dec: "decode_addr g addr = Inr (t, k)"
    and nomatch: "\<forall>i<length (cache st ! unat k).
        \<not> (tag (cache st ! unat k ! i) = t \<and> valid (cache st ! unat k ! i) = CHR ''1'')"
    and full: "\<forall>i<length (cache st ! unat k). valid (cache st ! unat k ! i) \<noteq> CHR ''0''"
    and m: "m < length (cache st ! unat k)"
      "count (cache st ! unat k ! m) = leastRecent (enter (nat (opt_E g)) (cache st ! unat k) st)"
    and first: "\<forall>i<m. count (cache st ! unat k ! i)
                  \<noteq> leastRecent (enter (nat (opt_E g)) (cache st ! unat k) st)"
  shows "accessData g st addr =
         bindE (bindE (add_int (miss_cnt st) 1) (\<lambda>c.
                  evict_body t m (enter (nat (opt_E g)) (cache st ! unat k) st\<lparr>misses := c\<rparr>)))
               (\<lambda>f. Inr (leave st (unat k) f))"
proof -
  let ?ls = "cache st ! unat k" and ?n = "nat (opt_E g)"
  have k: "unat k < length (cache st)" using ok dec by (rule decode_addr_index)
  have len: "length ?ls = ?n" using ok k by (rule sim_ok_set)
  have "access_set ?n t (enter ?n ?ls st) = miss_branch ?n t (enter ?n ?ls st)"
    using nomatch len by (intro access_set_miss) (simp_all add: enter_fields)
  also have "\<dots> = bindE (add_int (misses (enter ?n ?ls st)) 1)
                      (\<lambda>c. evict_body t m (enter ?n ?ls st\<lparr>misses := c\<rparr>))"
    using full m first len by (intro miss_branch_evict) (simp_all add: enter_fields)
  finally have "access_set ?n t (enter ?n ?ls st) =
      bindE (add_int (miss_cnt st) 1) (\<lambda>c. evict_body t m (enter ?n ?ls st\<lparr>misses := c\<rparr>))"
    by (simp add: enter_fields)
  moreover have "0 < length ?ls" using m(1) by linarith
  ultimately show ?thesis using accessData_unfold[OF ok dec] by simp
qed

text \<open>What the returned state is, in each of the three cases.\<close>

lemma accessData_hit_result:
  assumes ok: "sim_ok g st" and dec: "decode_addr g addr = Inr (t, k)"
    and i: "i < length (cache st ! unat k)"
    and m: "tag (cache st ! unat k ! i) = t" "valid (cache st ! unat k ! i) = CHR ''1''"
    and res: "accessData g st addr = Inr st'"
  shows "cache st' = (cache st)[unat k := (cache st ! unat k)[i := (cache st ! unat k ! i)
            \<lparr>count := mostRecent (enter (nat (opt_E g)) (cache st ! unat k) st) + 1\<rparr>]]"
    and "hit_cnt st' = hit_cnt st + 1" and "miss_cnt st' = miss_cnt st"
    and "evict_cnt st' = evict_cnt st"
    and "mostRecent (enter (nat (opt_E g)) (cache st ! unat k) st) < INT_MAX"
proof -
  let ?f = "enter (nat (opt_E g)) (cache st ! unat k) st"
  from res obtain f where f: "hit_body (nat (opt_E g)) i ?f = Inr f" and st': "st' = leave st (unat k) f"
    unfolding accessData_hit[OF ok dec i m] by (auto simp: bindE_eq_Inr)
  note h = hit_body_Inr[OF f]
  show "cache st' = (cache st)[unat k := (cache st ! unat k)[i := (cache st ! unat k ! i)
            \<lparr>count := mostRecent ?f + 1\<rparr>]]"
    using h by (simp add: st' leave_fields enter_fields)
  show "hit_cnt st' = hit_cnt st + 1" using h by (simp add: st' leave_fields enter_fields)
  show "miss_cnt st' = miss_cnt st" using h by (simp add: st' leave_fields enter_fields)
  show "evict_cnt st' = evict_cnt st" using h by (simp add: st' leave_fields enter_fields)
  show "mostRecent ?f < INT_MAX" using h by simp
qed

lemma accessData_install_result:
  assumes ok: "sim_ok g st" and dec: "decode_addr g addr = Inr (t, k)"
    and nomatch: "\<forall>i<length (cache st ! unat k).
        \<not> (tag (cache st ! unat k ! i) = t \<and> valid (cache st ! unat k ! i) = CHR ''1'')"
    and j: "j < length (cache st ! unat k)" "valid (cache st ! unat k ! j) = CHR ''0''"
    and first: "\<forall>i<j. valid (cache st ! unat k ! i) \<noteq> CHR ''0''"
    and res: "accessData g st addr = Inr st'"
  shows "cache st' = (cache st)[unat k := (cache st ! unat k)[j := (cache st ! unat k ! j)
            \<lparr>valid := CHR ''1'', tag := t,
             count := mostRecent (enter (nat (opt_E g)) (cache st ! unat k) st) + 1\<rparr>]]"
    and "hit_cnt st' = hit_cnt st" and "miss_cnt st' = miss_cnt st + 1"
    and "evict_cnt st' = evict_cnt st"
    and "mostRecent (enter (nat (opt_E g)) (cache st ! unat k) st) < INT_MAX"
proof -
  let ?f = "enter (nat (opt_E g)) (cache st ! unat k) st"
  from res obtain c f where c: "add_int (miss_cnt st) 1 = Inr c"
    and f: "install_body (nat (opt_E g)) t j (?f\<lparr>misses := c\<rparr>) = Inr f"
    and st': "st' = leave st (unat k) f"
    unfolding accessData_install[OF ok dec nomatch j first] by (auto simp: bindE_eq_Inr)
  note h = install_body_Inr[OF f]
  have c': "c = miss_cnt st + 1" using c by (simp add: add_int_one)
  show "cache st' = (cache st)[unat k := (cache st ! unat k)[j := (cache st ! unat k ! j)
            \<lparr>valid := CHR ''1'', tag := t, count := mostRecent ?f + 1\<rparr>]]"
    using h by (simp add: st' leave_fields enter_fields)
  show "hit_cnt st' = hit_cnt st" using h by (simp add: st' leave_fields enter_fields)
  show "miss_cnt st' = miss_cnt st + 1" using h c' by (simp add: st' leave_fields)
  show "evict_cnt st' = evict_cnt st" using h by (simp add: st' leave_fields enter_fields)
  show "mostRecent ?f < INT_MAX" using h by simp
qed

lemma accessData_evict_result:
  assumes ok: "sim_ok g st" and dec: "decode_addr g addr = Inr (t, k)"
    and nomatch: "\<forall>i<length (cache st ! unat k).
        \<not> (tag (cache st ! unat k ! i) = t \<and> valid (cache st ! unat k ! i) = CHR ''1'')"
    and full: "\<forall>i<length (cache st ! unat k). valid (cache st ! unat k ! i) \<noteq> CHR ''0''"
    and m: "m < length (cache st ! unat k)"
      "count (cache st ! unat k ! m) = leastRecent (enter (nat (opt_E g)) (cache st ! unat k) st)"
    and first: "\<forall>i<m. count (cache st ! unat k ! i)
                  \<noteq> leastRecent (enter (nat (opt_E g)) (cache st ! unat k) st)"
    and res: "accessData g st addr = Inr st'"
  shows "cache st' = (cache st)[unat k := (cache st ! unat k)[m := (cache st ! unat k ! m)
            \<lparr>tag := t, count := mostRecent (enter (nat (opt_E g)) (cache st ! unat k) st) + 1\<rparr>]]"
    and "hit_cnt st' = hit_cnt st" and "miss_cnt st' = miss_cnt st + 1"
    and "evict_cnt st' = evict_cnt st + 1"
    and "mostRecent (enter (nat (opt_E g)) (cache st ! unat k) st) < INT_MAX"
proof -
  let ?f = "enter (nat (opt_E g)) (cache st ! unat k) st"
  from res obtain c f where c: "add_int (miss_cnt st) 1 = Inr c"
    and f: "evict_body t m (?f\<lparr>misses := c\<rparr>) = Inr f"
    and st': "st' = leave st (unat k) f"
    unfolding accessData_evict[OF ok dec nomatch full m first] by (auto simp: bindE_eq_Inr)
  note h = evict_body_Inr[OF f]
  have c': "c = miss_cnt st + 1" using c by (simp add: add_int_one)
  show "cache st' = (cache st)[unat k := (cache st ! unat k)[m := (cache st ! unat k ! m)
            \<lparr>tag := t, count := mostRecent ?f + 1\<rparr>]]"
    using h by (simp add: st' leave_fields enter_fields)
  show "hit_cnt st' = hit_cnt st" using h by (simp add: st' leave_fields enter_fields)
  show "miss_cnt st' = miss_cnt st + 1" using h c' by (simp add: st' leave_fields)
  show "evict_cnt st' = evict_cnt st + 1" using h by (simp add: st' leave_fields enter_fields)
  show "mostRecent ?f < INT_MAX" using h by simp
qed

text \<open>When the call returns: the counters are small enough.\<close>

lemma accessData_hit_total:
  assumes ok: "sim_ok g st" and dec: "decode_addr g addr = Inr (t, k)"
    and i: "i < length (cache st ! unat k)"
    and m: "tag (cache st ! unat k ! i) = t" "valid (cache st ! unat k ! i) = CHR ''1''"
    and small: "hit_cnt st < INT_MAX" "\<forall>j<length (cache st ! unat k). count (cache st ! unat k ! j) < INT_MAX"
  shows "\<exists>st'. accessData g st addr = Inr st'"
proof -
  let ?ls = "cache st ! unat k" and ?n = "nat (opt_E g)"
  let ?f = "enter ?n ?ls st"
  have k: "unat k < length (cache st)" using ok dec by (rule decode_addr_index)
  have len: "length ?ls = ?n" using ok k by (rule sim_ok_set)
  have n: "0 < ?n" using i len by linarith
  obtain a where a: "a < ?n" "count (?ls ! a) = mostRecent ?f" using enter_most[OF n, of ?ls st] by blast
  obtain c where c: "c < ?n" "count (?ls ! c) = leastRecent ?f" using enter_least[OF n, of ?ls st] by blast
  have "mostRecent ?f < INT_MAX" using a small(2) len by metis
  moreover have "0 \<le> leastRecent ?f" using c sim_ok_set(3)[OF ok k, of c] len by simp
  moreover have "leastRecent ?f \<le> mostRecent ?f" using n by (rule enter_least_le_most)
  moreover have "0 \<le> hits ?f" "hits ?f < INT_MAX" using ok small(1) by (simp_all add: enter_fields sim_ok_def)
  ultimately obtain f where "hit_body ?n i ?f = Inr f" using hit_body_ok[of ?f ?n i] by blast
  then show ?thesis unfolding accessData_hit[OF ok dec i m] by simp
qed

lemma accessData_install_total:
  assumes ok: "sim_ok g st" and dec: "decode_addr g addr = Inr (t, k)"
    and nomatch: "\<forall>i<length (cache st ! unat k).
        \<not> (tag (cache st ! unat k ! i) = t \<and> valid (cache st ! unat k ! i) = CHR ''1'')"
    and j: "j < length (cache st ! unat k)" "valid (cache st ! unat k ! j) = CHR ''0''"
    and first: "\<forall>i<j. valid (cache st ! unat k ! i) \<noteq> CHR ''0''"
    and small: "miss_cnt st < INT_MAX" "\<forall>j<length (cache st ! unat k). count (cache st ! unat k ! j) < INT_MAX"
  shows "\<exists>st'. accessData g st addr = Inr st'"
proof -
  let ?ls = "cache st ! unat k" and ?n = "nat (opt_E g)"
  let ?f = "enter ?n ?ls st"
  have k: "unat k < length (cache st)" using ok dec by (rule decode_addr_index)
  have len: "length ?ls = ?n" using ok k by (rule sim_ok_set)
  have n: "0 < ?n" using j(1) len by linarith
  obtain a where a: "a < ?n" "count (?ls ! a) = mostRecent ?f" using enter_most[OF n, of ?ls st] by blast
  obtain c where c: "c < ?n" "count (?ls ! c) = leastRecent ?f" using enter_least[OF n, of ?ls st] by blast
  have 1: "mostRecent ?f < INT_MAX" using a small(2) len by metis
  have 2: "0 \<le> leastRecent ?f" using c sim_ok_set(3)[OF ok k, of c] len by simp
  have 3: "leastRecent ?f \<le> mostRecent ?f" using n by (rule enter_least_le_most)
  have 4: "0 \<le> miss_cnt st" using ok by (simp add: sim_ok_def)
  have mc: "add_int (miss_cnt st) 1 = Inr (miss_cnt st + 1)" using 4 small(1) by (rule add_int_one_ok)
  obtain f where "install_body ?n t j (?f\<lparr>misses := miss_cnt st + 1\<rparr>) = Inr f"
    using install_body_ok[of "?f\<lparr>misses := miss_cnt st + 1\<rparr>" ?n t j] 1 2 3 by auto
  then show ?thesis unfolding accessData_install[OF ok dec nomatch j first] by (simp add: mc)
qed

lemma accessData_evict_total:
  assumes ok: "sim_ok g st" and dec: "decode_addr g addr = Inr (t, k)"
    and nomatch: "\<forall>i<length (cache st ! unat k).
        \<not> (tag (cache st ! unat k ! i) = t \<and> valid (cache st ! unat k ! i) = CHR ''1'')"
    and full: "\<forall>i<length (cache st ! unat k). valid (cache st ! unat k ! i) \<noteq> CHR ''0''"
    and n: "0 < length (cache st ! unat k)"
    and small: "miss_cnt st < INT_MAX" "\<forall>j<length (cache st ! unat k). count (cache st ! unat k ! j) < INT_MAX"
  shows "\<exists>st'. accessData g st addr = Inr st'"
proof -
  let ?ls = "cache st ! unat k" and ?n = "nat (opt_E g)"
  let ?f = "enter ?n ?ls st"
  have k: "unat k < length (cache st)" using ok dec by (rule decode_addr_index)
  have len: "length ?ls = ?n" using ok k by (rule sim_ok_set)
  have n: "0 < ?n" using n len by linarith
  obtain a where a: "a < ?n" "count (?ls ! a) = mostRecent ?f" using enter_most[OF n, of ?ls st] by blast
  obtain c where c: "c < ?n" "count (?ls ! c) = leastRecent ?f" using enter_least[OF n, of ?ls st] by blast
  have "\<exists>m<?n. count (?ls ! m) = leastRecent ?f \<and> (\<forall>i<m. \<not> count (?ls ! i) = leastRecent ?f)"
    using c by (intro first_index) blast
  then obtain m where m: "m < length ?ls" "count (?ls ! m) = leastRecent ?f"
    and mf: "\<forall>i<m. count (?ls ! i) \<noteq> leastRecent ?f" using len by auto
  have 1: "mostRecent ?f < INT_MAX" using a small(2) len by metis
  have 2: "0 \<le> leastRecent ?f" using c sim_ok_set(3)[OF ok k, of c] len by simp
  have 3: "leastRecent ?f \<le> mostRecent ?f" using n by (rule enter_least_le_most)
  have 4: "0 \<le> miss_cnt st" "0 \<le> evict_cnt st" "evict_cnt st \<le> miss_cnt st" using ok by (simp_all add: sim_ok_def)
  have mc: "add_int (miss_cnt st) 1 = Inr (miss_cnt st + 1)" using 4(1) small(1) by (rule add_int_one_ok)
  have 5: "evict_cnt st < INT_MAX" using 4(3) small(1) by linarith
  obtain f where "evict_body t m (?f\<lparr>misses := miss_cnt st + 1\<rparr>) = Inr f"
    using evict_body_ok[of "?f\<lparr>misses := miss_cnt st + 1\<rparr>" t m] 1 2 3 4(2) 5 by (auto simp: enter_fields)
  then show ?thesis unfolding accessData_evict[OF ok dec nomatch full m mf] by (simp add: mc)
qed

subsection \<open>The invariants are kept\<close>

lemma set_ok_update:
  assumes ok: "set_ok ls" and x: "x < length ls"
    and v: "valid l' = CHR ''0'' \<or> valid l' = CHR ''1''"
    and others: "\<forall>j<length ls. j \<noteq> x \<longrightarrow> valid (ls ! j) = CHR ''1'' \<longrightarrow>
                   tag (ls ! j) \<noteq> tag l' \<and> count (ls ! j) \<noteq> count l'"
  shows "set_ok (ls[x := l'])"
  unfolding set_ok_def
proof (intro conjI allI impI)
  fix i assume "i < length (ls[x := l'])"
  then show "valid (ls[x := l'] ! i) = CHR ''0'' \<or> valid (ls[x := l'] ! i) = CHR ''1''"
    using ok v by (cases "i = x") (auto simp: set_ok_def)
next
  fix i j
  assume i: "i < length (ls[x := l'])" and j: "j < length (ls[x := l'])"
    and h: "i \<noteq> j \<and> valid (ls[x := l'] ! i) = CHR ''1'' \<and> valid (ls[x := l'] ! j) = CHR ''1''"
  have il: "i < length ls" and jl: "j < length ls" using i j by simp_all
  consider "i = x" "j \<noteq> x" | "j = x" "i \<noteq> x" | "i \<noteq> x" "j \<noteq> x" using h by blast
  then have "tag (ls[x := l'] ! i) \<noteq> tag (ls[x := l'] ! j) \<and> count (ls[x := l'] ! i) \<noteq> count (ls[x := l'] ! j)"
  proof cases
    case 1
    have "ls[x := l'] ! j = ls ! j" using 1 by simp
    then have "valid (ls ! j) = CHR ''1''" using h by simp
    then have "tag (ls ! j) \<noteq> tag l' \<and> count (ls ! j) \<noteq> count l'" using others jl 1 by blast
    then show ?thesis using 1 x by auto
  next
    case 2
    have "ls[x := l'] ! i = ls ! i" using 2 by simp
    then have "valid (ls ! i) = CHR ''1''" using h by simp
    then have "tag (ls ! i) \<noteq> tag l' \<and> count (ls ! i) \<noteq> count l'" using others il 2 by blast
    then show ?thesis using 2 x by auto
  next
    case 3
    have "ls[x := l'] ! i = ls ! i" "ls[x := l'] ! j = ls ! j" using 3 by simp_all
    then have "valid (ls ! i) = CHR ''1''" "valid (ls ! j) = CHR ''1''" using h by simp_all
    then have "tag (ls ! i) \<noteq> tag (ls ! j) \<and> count (ls ! i) \<noteq> count (ls ! j)"
      using ok il jl h unfolding set_ok_def by blast
    then show ?thesis using 3 by simp
  qed
  then show "tag (ls[x := l'] ! i) \<noteq> tag (ls[x := l'] ! j)"
    and "count (ls[x := l'] ! i) \<noteq> count (ls[x := l'] ! j)" by simp_all
qed

lemma sim_ok_update:
  assumes ok: "sim_ok g st" and k: "k < length (cache st)" and x: "x < length (cache st ! k)"
    and c: "cache st' = (cache st)[k := (cache st ! k)[x := l']]"
    and v: "valid l' = CHR ''1''"
    and tags: "\<forall>j<length (cache st ! k). j \<noteq> x \<longrightarrow> valid (cache st ! k ! j) = CHR ''1'' \<longrightarrow>
                 tag (cache st ! k ! j) \<noteq> tag l'"
    and newest: "\<forall>j<length (cache st ! k). count (cache st ! k ! j) < count l'"
    and bound: "count l' \<le> hit_cnt st' + miss_cnt st'"
    and mono: "hit_cnt st + miss_cnt st \<le> hit_cnt st' + miss_cnt st'"
    and cnt: "0 \<le> hit_cnt st'" "0 \<le> evict_cnt st'" "evict_cnt st' \<le> miss_cnt st'"
  shows "sim_ok g st'"
proof -
  let ?ls = "cache st ! k"
  have sok: "set_ok ?ls" using ok k by (rule sim_ok_set)
  have new_ok: "set_ok (?ls[x := l'])"
  proof (rule set_ok_update[OF sok x])
    show "valid l' = CHR ''0'' \<or> valid l' = CHR ''1''" using v by simp
    show "\<forall>j<length ?ls. j \<noteq> x \<longrightarrow> valid (?ls ! j) = CHR ''1'' \<longrightarrow>
            tag (?ls ! j) \<noteq> tag l' \<and> count (?ls ! j) \<noteq> count l'"
      using tags newest by (metis less_irrefl)
  qed
  have pos: "0 \<le> count l'" using newest x sim_ok_set(3)[OF ok k x] by force
  have sets: "length (cache st' ! q) = nat (opt_E g) \<and> set_ok (cache st' ! q) \<and>
        (\<forall>i<length (cache st' ! q).
           0 \<le> count (cache st' ! q ! i) \<and> count (cache st' ! q ! i) \<le> hit_cnt st' + miss_cnt st')"
    if q: "q < length (cache st')" for q
  proof (cases "q = k")
    case True
    have eq: "cache st' ! q = ?ls[x := l']" using True k c by simp
    have "0 \<le> count (?ls[x := l'] ! i) \<and> count (?ls[x := l'] ! i) \<le> hit_cnt st' + miss_cnt st'"
      if "i < length ?ls" for i
    proof (cases "i = x")
      case True then show ?thesis using pos bound x by simp
    next
      case False
      then show ?thesis using sim_ok_set(3,4)[OF ok k that] mono by simp
    qed
    then show ?thesis using eq new_ok sim_ok_set(1)[OF ok k] by simp
  next
    case False
    have ql: "q < length (cache st)" using q c by simp
    have eq: "cache st' ! q = cache st ! q" using False c by simp
    show ?thesis unfolding eq
      using sim_ok_set(1,2)[OF ok ql] sim_ok_set(3,4)[OF ok ql] mono by force
  qed
  have "length (cache st') = length (cache st)" using c by simp
  then show ?thesis using ok sets cnt unfolding sim_ok_def by simp
qed

lemma enter_most_props:
  assumes ok: "sim_ok g st" and k: "k < length (cache st)" and n: "0 < length (cache st ! k)"
  shows "\<forall>j<length (cache st ! k).
           count (cache st ! k ! j) < mostRecent (enter (nat (opt_E g)) (cache st ! k) st) + 1"
    and "mostRecent (enter (nat (opt_E g)) (cache st ! k) st) + 1 \<le> hit_cnt st + miss_cnt st + 1"
proof -
  let ?ls = "cache st ! k" and ?n = "nat (opt_E g)"
  have len: "length ?ls = ?n" using ok k by (rule sim_ok_set)
  have n': "0 < ?n" using n len by linarith
  have "\<forall>i<?n. count (?ls ! i) \<le> mostRecent (enter ?n ?ls st)"
    using enter_most[OF n', of ?ls st] by blast
  then show "\<forall>j<length ?ls. count (?ls ! j) < mostRecent (enter ?n ?ls st) + 1"
    using len by force
  obtain a where a: "a < ?n" "count (?ls ! a) = mostRecent (enter ?n ?ls st)"
    using enter_most[OF n', of ?ls st] by blast
  have "count (?ls ! a) \<le> hit_cnt st + miss_cnt st"
    using sim_ok_set(4)[OF ok k, of a] a(1) len by simp
  then show "mostRecent (enter ?n ?ls st) + 1 \<le> hit_cnt st + miss_cnt st + 1"
    using a(2) by simp
qed

lemma accessData_touch:
  assumes ok: "sim_ok g st" and dec: "decode_addr g addr = Inr (t, k)"
    and res: "accessData g st addr = Inr st'"
  shows "\<exists>x l'. x < length (cache st ! unat k) \<and>
           cache st' = (cache st)[unat k := (cache st ! unat k)[x := l']] \<and>
           valid l' = CHR ''1'' \<and> tag l' = t \<and>
           (\<forall>j<length (cache st ! unat k). count (cache st ! unat k ! j) < count l') \<and>
           (\<forall>j<length (cache st ! unat k). j \<noteq> x \<longrightarrow>
               \<not> (tag (cache st ! unat k ! j) = t \<and> valid (cache st ! unat k ! j) = CHR ''1'')) \<and>
           count l' \<le> hit_cnt st + miss_cnt st + 1 \<and>
           (hit_cnt st' = hit_cnt st + 1 \<and> miss_cnt st' = miss_cnt st \<and>
            evict_cnt st' = evict_cnt st \<and>
            tag (cache st ! unat k ! x) = t \<and> valid (cache st ! unat k ! x) = CHR ''1''
            \<or>
            hit_cnt st' = hit_cnt st \<and> miss_cnt st' = miss_cnt st + 1 \<and>
            (evict_cnt st' = evict_cnt st \<or> evict_cnt st' = evict_cnt st + 1) \<and>
            (\<forall>j<length (cache st ! unat k).
               \<not> (tag (cache st ! unat k ! j) = t \<and> valid (cache st ! unat k ! j) = CHR ''1'')))"
proof -
  let ?ls = "cache st ! unat k" and ?n = "nat (opt_E g)"
  let ?mr = "mostRecent (enter ?n ?ls st)" and ?lr = "leastRecent (enter ?n ?ls st)"
  have k: "unat k < length (cache st)" using ok dec by (rule decode_addr_index)
  have len: "length ?ls = ?n" and sok: "set_ok ?ls" using ok k by (rule sim_ok_set)+
  have n: "0 < length ?ls" using ok dec res by (rule accessData_empty_set)
  note mp = enter_most_props[OF ok k n]
  show ?thesis
  proof (cases "\<exists>i<length ?ls. tag (?ls ! i) = t \<and> valid (?ls ! i) = CHR ''1''")
    case True
    then obtain i where i: "i < length ?ls" and m: "tag (?ls ! i) = t" "valid (?ls ! i) = CHR ''1''"
      by blast
    note r = accessData_hit_result[OF ok dec i m res]
    define l' where "l' = (?ls ! i)\<lparr>count := ?mr + 1\<rparr>"
    have 1: "cache st' = (cache st)[unat k := ?ls[i := l']]" using r(1) by (simp only: l'_def)
    have 2: "valid l' = CHR ''1''" "tag l' = t" using m by (simp_all add: l'_def)
    have c: "count l' = ?mr + 1" by (simp add: l'_def)
    have 3: "\<forall>j<length ?ls. count (?ls ! j) < count l'" using mp(1) by (simp only: c)
    have 4: "count l' \<le> hit_cnt st + miss_cnt st + 1" using mp(2) by (simp only: c)
    have 5: "\<forall>j<length ?ls. j \<noteq> i \<longrightarrow> \<not> (tag (?ls ! j) = t \<and> valid (?ls ! j) = CHR ''1'')"
    proof (intro allI impI)
      fix j assume "j < length ?ls" "j \<noteq> i"
      then show "\<not> (tag (?ls ! j) = t \<and> valid (?ls ! j) = CHR ''1'')"
        using set_ok_other_tags[OF sok i m(2), of j] m(1) by simp
    qed
    show ?thesis using i 1 2 3 4 5 m r(2-4) by blast
  next
    case False
    then have nomatch: "\<forall>i<length ?ls. \<not> (tag (?ls ! i) = t \<and> valid (?ls ! i) = CHR ''1'')"
      by blast
    show ?thesis
    proof (cases "\<exists>j<length ?ls. valid (?ls ! j) = CHR ''0''")
      case True
      then have "\<exists>j<length ?ls. valid (?ls ! j) = CHR ''0'' \<and> (\<forall>i<j. \<not> valid (?ls ! i) = CHR ''0'')"
        by (rule first_index)
      then obtain j where j: "j < length ?ls" "valid (?ls ! j) = CHR ''0''"
        and first: "\<forall>i<j. valid (?ls ! i) \<noteq> CHR ''0''" by blast
      note r = accessData_install_result[OF ok dec nomatch j first res]
      define l' where "l' = (?ls ! j)\<lparr>valid := CHR ''1'', tag := t, count := ?mr + 1\<rparr>"
      have 1: "cache st' = (cache st)[unat k := ?ls[j := l']]" using r(1) by (simp only: l'_def)
      have 2: "valid l' = CHR ''1''" "tag l' = t" by (simp_all add: l'_def)
      have c: "count l' = ?mr + 1" by (simp add: l'_def)
      have 3: "\<forall>j<length ?ls. count (?ls ! j) < count l'" using mp(1) by (simp only: c)
      have 4: "count l' \<le> hit_cnt st + miss_cnt st + 1" using mp(2) by (simp only: c)
      show ?thesis using j(1) 1 2 3 4 nomatch r(2-4) by blast
    next
      case False
      then have full: "\<forall>i<length ?ls. valid (?ls ! i) \<noteq> CHR ''0''" by blast
      have "\<exists>m<?n. count (?ls ! m) = ?lr" using enter_least[of ?n ?ls st] n len by simp
      then have "\<exists>m<?n. count (?ls ! m) = ?lr \<and> (\<forall>i<m. \<not> count (?ls ! i) = ?lr)"
        by (rule first_index)
      then obtain m where m: "m < length ?ls" "count (?ls ! m) = ?lr"
        and first: "\<forall>i<m. count (?ls ! i) \<noteq> ?lr" using len by auto
      note r = accessData_evict_result[OF ok dec nomatch full m first res]
      have v: "valid (?ls ! m) = CHR ''1''" using full m(1) sok unfolding set_ok_def by blast
      define l' where "l' = (?ls ! m)\<lparr>tag := t, count := ?mr + 1\<rparr>"
      have 1: "cache st' = (cache st)[unat k := ?ls[m := l']]" using r(1) by (simp only: l'_def)
      have 2: "valid l' = CHR ''1''" "tag l' = t" using v by (simp_all add: l'_def)
      have c: "count l' = ?mr + 1" by (simp add: l'_def)
      have 3: "\<forall>j<length ?ls. count (?ls ! j) < count l'" using mp(1) by (simp only: c)
      have 4: "count l' \<le> hit_cnt st + miss_cnt st + 1" using mp(2) by (simp only: c)
      show ?thesis using m(1) 1 2 3 4 nomatch r(2-4) by blast
    qed
  qed
qed

lemma sim_ok_step:
  assumes ok: "sim_ok g st" and res: "accessData g st addr = Inr st'"
  shows "sim_ok g st'"
proof -
  obtain t k where dec: "decode_addr g addr = Inr (t, k)"
    using accessData_decodes[OF res] by blast
  have k: "unat k < length (cache st)" using ok dec by (rule decode_addr_index)
  let ?ls = "cache st ! unat k"
  from accessData_touch[OF ok dec res] obtain x l' where
    x: "x < length ?ls" and c: "cache st' = (cache st)[unat k := ?ls[x := l']]"
    and v: "valid l' = CHR ''1''" and tl: "tag l' = t"
    and newest: "\<forall>j<length ?ls. count (?ls ! j) < count l'"
    and others: "\<forall>j<length ?ls. j \<noteq> x \<longrightarrow> \<not> (tag (?ls ! j) = t \<and> valid (?ls ! j) = CHR ''1'')"
    and bound: "count l' \<le> hit_cnt st + miss_cnt st + 1"
    and cnt: "hit_cnt st' = hit_cnt st + 1 \<and> miss_cnt st' = miss_cnt st \<and> evict_cnt st' = evict_cnt st
            \<or> hit_cnt st' = hit_cnt st \<and> miss_cnt st' = miss_cnt st + 1 \<and>
              (evict_cnt st' = evict_cnt st \<or> evict_cnt st' = evict_cnt st + 1)"
    by blast
  have old: "0 \<le> hit_cnt st" "0 \<le> evict_cnt st" "evict_cnt st \<le> miss_cnt st"
    using ok by (simp_all add: sim_ok_def)
  show ?thesis
  proof (rule sim_ok_update[OF ok k x c v])
    show "\<forall>j<length ?ls. j \<noteq> x \<longrightarrow> valid (?ls ! j) = CHR ''1'' \<longrightarrow> tag (?ls ! j) \<noteq> tag l'"
      using others tl by blast
    show "\<forall>j<length ?ls. count (?ls ! j) < count l'" by (rule newest)
    show "count l' \<le> hit_cnt st' + miss_cnt st'" using bound cnt by linarith
    show "hit_cnt st + miss_cnt st \<le> hit_cnt st' + miss_cnt st'" using cnt by linarith
    show "0 \<le> hit_cnt st'" using cnt old by linarith
    show "0 \<le> evict_cnt st'" using cnt old by linarith
    show "evict_cnt st' \<le> miss_cnt st'" using cnt old by linarith
  qed
qed

lemma sim_ok_fresh:
  assumes "initCache g = Inr st"
  shows "sim_ok g st"
proof -
  have r: "1 \<le> opt_s g" "opt_s g \<le> 30" "0 \<le> opt_E g"
    and st: "st = \<lparr>cache = replicate (2 ^ nat (opt_s g)) (replicate (nat (opt_E g)) empty_line),
         hit_cnt = 0, miss_cnt = 0, evict_cnt = 0\<rparr>"
    using assms by (simp_all add: initCache_Inr)
  have "set_ok (replicate n empty_line)" for n
    by (simp add: set_ok_def empty_line_def)
  then show ?thesis using r by (simp add: sim_ok_def st empty_line_def)
qed

lemma reachable_sim_ok: "reachable g st \<Longrightarrow> sim_ok g st"
  by (induction rule: reachable.induct) (auto intro: sim_ok_fresh sim_ok_step)

subsection \<open>Returning, counting, replaying\<close>

lemma accessData_total:
  assumes ok: "sim_ok g st" and dec: "decode_addr g addr = Inr (t, k)"
    and E: "0 < opt_E g" and small: "hit_cnt st + miss_cnt st < INT_MAX"
  shows "\<exists>st'. accessData g st addr = Inr st'"
proof -
  let ?ls = "cache st ! unat k" and ?n = "nat (opt_E g)"
  let ?lr = "leastRecent (enter ?n ?ls st)"
  have k: "unat k < length (cache st)" using ok dec by (rule decode_addr_index)
  have len: "length ?ls = ?n" using ok k by (rule sim_ok_set)
  have n: "0 < length ?ls" using E len by linarith
  have cnt: "0 \<le> hit_cnt st" "0 \<le> miss_cnt st" using ok by (simp_all add: sim_ok_def)
  have h: "hit_cnt st < INT_MAX" and m: "miss_cnt st < INT_MAX" using cnt small by linarith+
  have c: "\<forall>j<length ?ls. count (?ls ! j) < INT_MAX"
    using sim_ok_set(4)[OF ok k] small by force
  show ?thesis
  proof (cases "\<exists>i<length ?ls. tag (?ls ! i) = t \<and> valid (?ls ! i) = CHR ''1''")
    case True
    then obtain i where "i < length ?ls" "tag (?ls ! i) = t" "valid (?ls ! i) = CHR ''1''" by blast
    then show ?thesis using h c by (intro accessData_hit_total[OF ok dec])
  next
    case False
    then have nomatch: "\<forall>i<length ?ls. \<not> (tag (?ls ! i) = t \<and> valid (?ls ! i) = CHR ''1'')"
      by blast
    show ?thesis
    proof (cases "\<exists>j<length ?ls. valid (?ls ! j) = CHR ''0''")
      case True
      then have "\<exists>j<length ?ls. valid (?ls ! j) = CHR ''0'' \<and> (\<forall>i<j. \<not> valid (?ls ! i) = CHR ''0'')"
        by (rule first_index)
      then obtain j where "j < length ?ls" "valid (?ls ! j) = CHR ''0''"
        "\<forall>i<j. valid (?ls ! i) \<noteq> CHR ''0''" by blast
      then show ?thesis using m c nomatch by (intro accessData_install_total[OF ok dec])
    next
      case False
      then have "\<forall>i<length ?ls. valid (?ls ! i) \<noteq> CHR ''0''" by blast
      then show ?thesis using m c nomatch n by (intro accessData_evict_total[OF ok dec])
    qed
  qed
qed

lemma accessData_counters:
  assumes ok: "sim_ok g st" and res: "accessData g st addr = Inr st'"
  shows "hit_cnt st' = hit_cnt st + 1 \<and> miss_cnt st' = miss_cnt st \<and> evict_cnt st' = evict_cnt st
       \<or> hit_cnt st' = hit_cnt st \<and> miss_cnt st' = miss_cnt st + 1 \<and>
         (evict_cnt st' = evict_cnt st \<or> evict_cnt st' = evict_cnt st + 1)"
proof -
  obtain t k where dec: "decode_addr g addr = Inr (t, k)"
    using accessData_decodes[OF res] by blast
  from accessData_touch[OF ok dec res] show ?thesis by blast
qed

lemma reachable_replayEvent:
  assumes "reachable g st" and "replayEvent g st ev = Inr st'"
  shows "reachable g st'"
proof (cases ev)
  case (Pair op a)
  show ?thesis
  proof (cases op)
    case Load then show ?thesis using assms Pair by (auto intro: reachable.access)
  next
    case Store then show ?thesis using assms Pair by (auto intro: reachable.access)
  next
    case Modify
    then obtain st1 where "accessData g st a = Inr st1" "accessData g st1 a = Inr st'"
      using assms(2) Pair by (auto simp: bindE_eq_Inr)
    then show ?thesis using assms(1) by (blast intro: reachable.access)
  next
    case InstructionFetch then show ?thesis using assms Pair by simp
  qed
qed

lemma reachable_replayTrace:
  "reachable g st \<Longrightarrow> replayTrace g st tr = Inr st' \<Longrightarrow> reachable g st'"
proof (induction tr arbitrary: st)
  case Nil then show ?case by simp
next
  case (Cons ev tr)
  from Cons.prems(2) obtain st1 where 1: "replayEvent g st ev = Inr st1"
    and 2: "replayTrace g st1 tr = Inr st'" by (auto simp: bindE_eq_Inr)
  have "reachable g st1" using Cons.prems(1) 1 by (rule reachable_replayEvent)
  then show ?case using 2 by (rule Cons.IH)
qed

lemma calls_filter:
  "calls tr = length (filter (\<lambda>e. fst e = Load) tr) + length (filter (\<lambda>e. fst e = Store) tr)
              + 2 * length (filter (\<lambda>e. fst e = Modify) tr)"
  by (induction tr rule: calls.induct) simp_all

lemma replayEvent_counts:
  assumes ok: "sim_ok g st" and res: "replayEvent g st ev = Inr st'"
  shows "hit_cnt st' + miss_cnt st' = hit_cnt st + miss_cnt st + int (calls [ev]) \<and> sim_ok g st'"
proof (cases ev)
  case (Pair op a)
  show ?thesis
  proof (cases op)
    case Load
    then have r: "accessData g st a = Inr st'" using res Pair by simp
    show ?thesis using accessData_counters[OF ok r] sim_ok_step[OF ok r] Load Pair by auto
  next
    case Store
    then have r: "accessData g st a = Inr st'" using res Pair by simp
    show ?thesis using accessData_counters[OF ok r] sim_ok_step[OF ok r] Store Pair by auto
  next
    case Modify
    then obtain st1 where r1: "accessData g st a = Inr st1" and r2: "accessData g st1 a = Inr st'"
      using res Pair by (auto simp: bindE_eq_Inr)
    have ok1: "sim_ok g st1" using ok r1 by (rule sim_ok_step)
    show ?thesis
      using accessData_counters[OF ok r1] accessData_counters[OF ok1 r2] sim_ok_step[OF ok1 r2]
        Modify Pair by auto
  next
    case InstructionFetch then show ?thesis using res ok Pair by simp
  qed
qed

lemma replayTrace_counts:
  "sim_ok g st \<Longrightarrow> replayTrace g st tr = Inr st' \<Longrightarrow>
   hit_cnt st' + miss_cnt st' = hit_cnt st + miss_cnt st + int (calls tr)"
proof (induction tr arbitrary: st)
  case Nil then show ?case by simp
next
  case (Cons ev tr)
  from Cons.prems(2) obtain st1 where 1: "replayEvent g st ev = Inr st1"
    and 2: "replayTrace g st1 tr = Inr st'" by (auto simp: bindE_eq_Inr)
  note e = replayEvent_counts[OF Cons.prems(1) 1]
  have "hit_cnt st' + miss_cnt st' = hit_cnt st1 + miss_cnt st1 + int (calls tr)"
    using e 2 by (intro Cons.IH) simp_all
  moreover have "calls (ev # tr) = calls [ev] + calls tr"
  proof (cases ev)
    case (Pair op a) then show ?thesis by (cases op) simp_all
  qed
  ultimately show ?case using e by simp
qed

subsection \<open>The example run\<close>

text \<open>The example state is the fresh cache after the example trace.\<close>

lemma demo_fresh:
  "initCache demo =
     Inr \<lparr>cache = [[empty_line, empty_line], [empty_line, empty_line]],
           hit_cnt = 0, miss_cnt = 0, evict_cnt = 0\<rparr>"
  by code_simp

lemma demo_replay:
  "replayTrace demo
     \<lparr>cache = [[empty_line, empty_line], [empty_line, empty_line]],
      hit_cnt = 0, miss_cnt = 0, evict_cnt = 0\<rparr> demo_trace = Inr demo_warm"
  by code_simp

lemma demo_warm_reachable: "reachable demo demo_warm"
  using reachable_replayTrace[OF reachable.fresh[OF demo_fresh] demo_replay] .

lemma demo_decode:
  "decode_addr demo 8 = Inr (2, 0)" "decode_addr demo 4 = Inr (1, 0)"
  "decode_addr demo 2 = Inr (0, 1)"
  by code_simp+

lemma demo_scan: "scan_recency (nat (opt_E demo)) (cache demo_warm ! 0) = (3, 2)"
  by code_simp

lemma demo_counters:
  "hit_cnt demo_warm = 1" "miss_cnt demo_warm = 2" "evict_cnt demo_warm = 0"
  by (simp_all add: demo_warm_def)

lemma less_two: "i < Suc (Suc 0) \<longleftrightarrow> i = 0 \<or> i = Suc 0"
  by auto

lemma demo_access:
  "accessData demo demo_warm 8 =
     Inr \<lparr>cache = [[\<lparr>valid = CHR ''1'', tag = 0, count = 3\<rparr>,
                     \<lparr>valid = CHR ''1'', tag = 2, count = 4\<rparr>],
                    [\<lparr>valid = CHR ''0'', tag = 0, count = 0\<rparr>,
                     \<lparr>valid = CHR ''0'', tag = 0, count = 0\<rparr>]],
           hit_cnt = 1, miss_cnt = 3, evict_cnt = 1\<rparr>"
  "accessData demo demo_warm 4 =
     Inr \<lparr>cache = [[\<lparr>valid = CHR ''1'', tag = 0, count = 3\<rparr>,
                     \<lparr>valid = CHR ''1'', tag = 1, count = 4\<rparr>],
                    [\<lparr>valid = CHR ''0'', tag = 0, count = 0\<rparr>,
                     \<lparr>valid = CHR ''0'', tag = 0, count = 0\<rparr>]],
           hit_cnt = 2, miss_cnt = 2, evict_cnt = 0\<rparr>"
  "accessData demo demo_warm 2 =
     Inr \<lparr>cache = [[\<lparr>valid = CHR ''1'', tag = 0, count = 3\<rparr>,
                     \<lparr>valid = CHR ''1'', tag = 1, count = 2\<rparr>],
                    [\<lparr>valid = CHR ''1'', tag = 0, count = 1\<rparr>,
                     \<lparr>valid = CHR ''0'', tag = 0, count = 0\<rparr>]],
           hit_cnt = 1, miss_cnt = 3, evict_cnt = 0\<rparr>"
  by code_simp+

lemma replayEvent_total:
  assumes ok: "sim_ok g st" and geo: "1 \<le> opt_b g" "opt_s g + opt_b g \<le> 30" "1 \<le> opt_E g"
    and small: "hit_cnt st + miss_cnt st + int (calls [ev]) \<le> INT_MAX"
  shows "\<exists>st'. replayEvent g st ev = Inr st'"
proof (cases ev)
  case (Pair op a)
  have s: "1 \<le> opt_s g" using ok by (simp add: sim_ok_def)
  have dec: "decode_addr g a = Inr (a div 2 ^ (nat (opt_b g) + nat (opt_s g)),
                                     (a div 2 ^ nat (opt_b g)) mod 2 ^ nat (opt_s g))"
    using s geo(1,2) by (rule decode_addr_in_range)
  have E: "0 < opt_E g" using geo(3) by simp
  show ?thesis
  proof (cases op)
    case Load
    then have "hit_cnt st + miss_cnt st < INT_MAX" using small Pair by simp
    then show ?thesis using accessData_total[OF ok dec E] Load Pair by simp
  next
    case Store
    then have "hit_cnt st + miss_cnt st < INT_MAX" using small Pair by simp
    then show ?thesis using accessData_total[OF ok dec E] Store Pair by simp
  next
    case Modify
    then have sm: "hit_cnt st + miss_cnt st + 1 < INT_MAX" using small Pair by simp
    then have "hit_cnt st + miss_cnt st < INT_MAX" by simp
    then obtain st1 where r1: "accessData g st a = Inr st1"
      using accessData_total[OF ok dec E] by blast
    have ok1: "sim_ok g st1" using ok r1 by (rule sim_ok_step)
    have "hit_cnt st1 + miss_cnt st1 < INT_MAX"
      using accessData_counters[OF ok r1] sm by linarith
    then obtain st2 where "accessData g st1 a = Inr st2"
      using accessData_total[OF ok1 dec E] by blast
    then show ?thesis using r1 Modify Pair by simp
  next
    case InstructionFetch then show ?thesis using Pair by simp
  qed
qed

lemma replayTrace_total:
  "sim_ok g st \<Longrightarrow> 1 \<le> opt_b g \<Longrightarrow> opt_s g + opt_b g \<le> 30 \<Longrightarrow> 1 \<le> opt_E g \<Longrightarrow>
   hit_cnt st + miss_cnt st + int (calls tr) \<le> INT_MAX \<Longrightarrow>
   \<exists>st'. replayTrace g st tr = Inr st'"
proof (induction tr arbitrary: st)
  case Nil then show ?case by simp
next
  case (Cons ev tr)
  have split: "calls (ev # tr) = calls [ev] + calls tr"
  proof (cases ev)
    case (Pair op a) then show ?thesis by (cases op) simp_all
  qed
  have "hit_cnt st + miss_cnt st + int (calls [ev]) \<le> INT_MAX"
    using Cons.prems(5) split by simp
  then obtain st1 where 1: "replayEvent g st ev = Inr st1"
    using replayEvent_total[OF Cons.prems(1-4)] by blast
  note e = replayEvent_counts[OF Cons.prems(1) 1]
  have "hit_cnt st1 + miss_cnt st1 + int (calls tr) \<le> INT_MAX"
    using e Cons.prems(5) split by simp
  then obtain st' where "replayTrace g st1 tr = Inr st'"
    using Cons.IH[of st1] e Cons.prems(2-4) by blast
  then show ?case using 1 by simp
qed

section \<open>Address decoding\<close>

text \<open>
  C4. The claim asks that, for every \<open>s \<ge> 1\<close> and \<open>b \<ge> 1\<close>, decoding return the set
  index \<open>floor(A / B) mod S\<close> and the tag \<open>floor(A / (B * S))\<close> without error. The code
  does not: at \<open>s = 16\<close>, \<open>b = 16\<close>, a geometry \<^verbatim>\<open>main\<close> accepts, \<open>S\<close> and \<open>B\<close> are
  both \<open>65536\<close> and fit an \<^verbatim>\<open>int\<close>, and the set index \<^verbatim>\<open>(addr / B) % S\<close> is computed
  from them one at a time, but the tag divides by the \<^verbatim>\<open>int\<close> product \<^verbatim>\<open>B * S\<close>
  (line 123), which is \<open>2^32\<close> and overflows before it is converted to \<^verbatim>\<open>mem_addr_t\<close>.
  The decoding of address \<open>0\<close>, and of \<open>0x100010000\<close> (claimed set index 1, tag 1), has
  no defined result there.
\<close>

theorem decode_addr_product_overflow:
  "shl_int 2 (16 - 1) = Inr 65536 \<and>
   mul_int 65536 65536 = Inl SignedOverflow \<and>
   decode_addr \<lparr>opt_s = 16, opt_E = 1, opt_b = 16\<rparr> 0 = Inl SignedOverflow \<and>
   decode_addr \<lparr>opt_s = 16, opt_E = 1, opt_b = 16\<rparr> 0x100010000 = Inl SignedOverflow"
  by (simp add: decode_addr_def add_int_def shl_int_def mul_int_def INT_MAX_def INT_MIN_def)

text \<open>
  Where the \<^verbatim>\<open>int\<close> arithmetic stays in range, that is for \<open>s \<ge> 1\<close>, \<open>b \<ge> 1\<close> and
  \<open>s + b \<le> 30\<close>, the decoding of every 64-bit address \<open>A\<close> is the claimed one: set index
  \<open>floor(A / B) mod S\<close> and tag \<open>floor(A / (B * S))\<close> with \<open>S = 2^s\<close> and \<open>B = 2^b\<close>.
  For \<open>s + b > 30\<close> one of \<^verbatim>\<open>2 << (s-1)\<close>, \<^verbatim>\<open>2 << (b-1)\<close> and \<^verbatim>\<open>B * S\<close> leaves the
  range of \<^verbatim>\<open>int\<close> and no pair is returned.
\<close>

lemma decode_addr_formula:
  assumes "1 \<le> opt_s g" and "1 \<le> opt_b g"
  shows "(opt_s g + opt_b g \<le> 30 \<longrightarrow>
           (\<exists>t k. decode_addr g A = Inr (t, k) \<and>
                  unat k = (unat A div 2 ^ nat (opt_b g)) mod 2 ^ nat (opt_s g) \<and>
                  unat t = unat A div (2 ^ nat (opt_b g) * 2 ^ nat (opt_s g)))) \<and>
         (30 < opt_s g + opt_b g \<longrightarrow> (\<exists>e. decode_addr g A = Inl e))"
proof (intro conjI impI)
  assume le: "opt_s g + opt_b g \<le> 30"
  let ?b = "nat (opt_b g)" and ?s = "nat (opt_s g)"
  have d: "decode_addr g A = Inr (A div 2 ^ (?b + ?s), (A div 2 ^ ?b) mod 2 ^ ?s)"
    using assms le by (rule decode_addr_in_range)
  have lt: "?b < 64" "?s < 64" "?b + ?s < 64" using assms le by linarith+
  have k: "unat ((A div 2 ^ ?b) mod 2 ^ ?s) = (unat A div 2 ^ ?b) mod 2 ^ ?s"
    using lt by (simp add: unat_mod_pow2 unat_div_pow2)
  have t: "unat (A div 2 ^ (?b + ?s)) = unat A div (2 ^ ?b * 2 ^ ?s)"
    using unat_div_pow2[OF lt(3), of A] by (simp only: power_add)
  show "\<exists>t k. decode_addr g A = Inr (t, k) \<and>
                  unat k = (unat A div 2 ^ ?b) mod 2 ^ ?s \<and>
                  unat t = unat A div (2 ^ ?b * 2 ^ ?s)"
    using d k t by blast
next
  assume gt: "30 < opt_s g + opt_b g"
  show "\<exists>e. decode_addr g A = Inl e"
  proof (cases "decode_addr g A")
    case (Inl e) then show ?thesis by blast
  next
    case (Inr r)
    then have "opt_s g + opt_b g \<le> 30" using decode_addr_out_of_range by blast
    then show ?thesis using gt by simp
  qed
qed

lemma decode_addr_formula_example:
  "(\<exists>t k. decode_addr \<lparr>opt_s = 4, opt_E = 1, opt_b = 4\<rparr> 0x1234 = Inr (t, k) \<and>
          unat k = 3 \<and> unat t = 18) \<and>
   (\<exists>e. decode_addr \<lparr>opt_s = 16, opt_E = 1, opt_b = 16\<rparr> 0x1234 = Inl e)"
  using decode_addr_formula[of "\<lparr>opt_s = 4, opt_E = 1, opt_b = 4\<rparr>" "0x1234"]
    decode_addr_formula[of "\<lparr>opt_s = 16, opt_E = 1, opt_b = 16\<rparr>" "0x1234"]
  by simp

section \<open>The three outcomes of an access\<close>

text \<open>
  C2. In a reachable state, let the address decode to tag \<open>t\<close> and set \<open>k\<close>, and let
  line \<open>i\<close> of that set be valid with tag \<open>t\<close>. When \<^verbatim>\<open>accessData\<close> returns, the hit
  counter has grown by exactly one, the miss and eviction counters are unchanged, and the
  cache differs from the old one only in the count of line \<open>i\<close> of set \<open>k\<close> (so no
  valid flag and no tag has changed), which is now strictly greater than the count every
  line of the set had before the call. The call does return when the hit counter and the
  counts of the set are below \<open>INT_MAX\<close>.
\<close>

theorem hit_marks_most_recent:
  assumes "reachable g st" and "decode_addr g addr = Inr (t, k)"
    and "i < length (cache st ! unat k)"
    and "valid (cache st ! unat k ! i) = CHR ''1''" and "tag (cache st ! unat k ! i) = t"
  shows "(\<forall>st'. accessData g st addr = Inr st' \<longrightarrow>
            hit_cnt st' = hit_cnt st + 1 \<and> miss_cnt st' = miss_cnt st \<and>
            evict_cnt st' = evict_cnt st \<and>
            (\<exists>c. cache st' = (cache st)[unat k := (cache st ! unat k)[i :=
                                   (cache st ! unat k ! i)\<lparr>count := c\<rparr>]] \<and>
                 (\<forall>j<length (cache st ! unat k). count (cache st ! unat k ! j) < c))) \<and>
         (hit_cnt st < INT_MAX \<and>
          (\<forall>j<length (cache st ! unat k). count (cache st ! unat k ! j) < INT_MAX) \<longrightarrow>
            (\<exists>st'. accessData g st addr = Inr st'))"
proof (intro conjI allI impI)
  fix st' assume res: "accessData g st addr = Inr st'"
  have ok: "sim_ok g st" using assms(1) by (rule reachable_sim_ok)
  have k: "unat k < length (cache st)" using ok assms(2) by (rule decode_addr_index)
  have n: "0 < length (cache st ! unat k)" using assms(3) by linarith
  note r = accessData_hit_result[OF ok assms(2,3,5,4) res]
  show "hit_cnt st' = hit_cnt st + 1" "miss_cnt st' = miss_cnt st" "evict_cnt st' = evict_cnt st"
    by (rule r)+
  show "\<exists>c. cache st' = (cache st)[unat k := (cache st ! unat k)[i :=
                                   (cache st ! unat k ! i)\<lparr>count := c\<rparr>]] \<and>
           (\<forall>j<length (cache st ! unat k). count (cache st ! unat k ! j) < c)"
    using r(1) enter_most_props(1)[OF ok k n] by blast
next
  assume small: "hit_cnt st < INT_MAX \<and>
          (\<forall>j<length (cache st ! unat k). count (cache st ! unat k ! j) < INT_MAX)"
  have ok: "sim_ok g st" using assms(1) by (rule reachable_sim_ok)
  show "\<exists>st'. accessData g st addr = Inr st'"
    using small by (intro accessData_hit_total[OF ok assms(2,3,5,4)]) simp_all
qed

theorem hit_marks_most_recent_witness:
  "reachable demo demo_warm \<and> decode_addr demo 4 = Inr (1, 0) \<and>
   valid (cache demo_warm ! unat (0 :: mem_addr_t) ! 1) = CHR ''1'' \<and>
   tag (cache demo_warm ! unat (0 :: mem_addr_t) ! 1) = 1 \<and>
   (\<exists>st'. accessData demo demo_warm 4 = Inr st' \<and> hit_cnt st' = hit_cnt demo_warm + 1 \<and>
          miss_cnt st' = miss_cnt demo_warm \<and> evict_cnt st' = evict_cnt demo_warm \<and>
          cache st' = (cache demo_warm)[0 := (cache demo_warm ! 0)[1 :=
                         (cache demo_warm ! 0 ! 1)\<lparr>count := 4\<rparr>]])"
proof -
  have i: "1 < length (cache demo_warm ! unat (0 :: mem_addr_t))"
    and v: "valid (cache demo_warm ! unat (0 :: mem_addr_t) ! 1) = CHR ''1''"
    and t: "tag (cache demo_warm ! unat (0 :: mem_addr_t) ! 1) = 1"
    by (simp_all add: demo_warm_def)
  show ?thesis
    using hit_marks_most_recent[OF demo_warm_reachable demo_decode(2) i v t]
      demo_warm_reachable v t
    by (simp add: demo_access demo_decode demo_counters) (simp add: demo_warm_def)
qed

text \<open>
  C3. In a reachable state, let the address decode to tag \<open>t\<close> and set \<open>k\<close>, let no
  valid line of that set have tag \<open>t\<close>, and let \<open>j\<close> be the lowest index of a line
  whose \<open>valid\<close> is \<open>'0'\<close>. When \<^verbatim>\<open>accessData\<close> returns, line \<open>j\<close> of set \<open>k\<close> holds
  tag \<open>t\<close>, is valid, and has a count strictly greater than every count of the set
  before the call; nothing else in the cache has changed; the miss counter has grown by
  exactly one and the hit and eviction counters are unchanged. The call does return when
  the miss counter and the counts of the set are below \<open>INT_MAX\<close>.
\<close>

theorem miss_fills_first_empty_line:
  assumes "reachable g st" and "decode_addr g addr = Inr (t, k)"
    and "\<forall>i<length (cache st ! unat k).
           \<not> (valid (cache st ! unat k ! i) = CHR ''1'' \<and> tag (cache st ! unat k ! i) = t)"
    and "j < length (cache st ! unat k)" and "valid (cache st ! unat k ! j) = CHR ''0''"
    and "\<forall>i<j. valid (cache st ! unat k ! i) \<noteq> CHR ''0''"
  shows "(\<forall>st'. accessData g st addr = Inr st' \<longrightarrow>
            miss_cnt st' = miss_cnt st + 1 \<and> hit_cnt st' = hit_cnt st \<and>
            evict_cnt st' = evict_cnt st \<and>
            (\<exists>c. cache st' = (cache st)[unat k := (cache st ! unat k)[j :=
                                   (cache st ! unat k ! j)\<lparr>valid := CHR ''1'', tag := t, count := c\<rparr>]] \<and>
                 (\<forall>i<length (cache st ! unat k). count (cache st ! unat k ! i) < c))) \<and>
         (miss_cnt st < INT_MAX \<and>
          (\<forall>i<length (cache st ! unat k). count (cache st ! unat k ! i) < INT_MAX) \<longrightarrow>
            (\<exists>st'. accessData g st addr = Inr st'))"
proof (intro conjI allI impI)
  fix st' assume res: "accessData g st addr = Inr st'"
  have ok: "sim_ok g st" using assms(1) by (rule reachable_sim_ok)
  have k: "unat k < length (cache st)" using ok assms(2) by (rule decode_addr_index)
  have n: "0 < length (cache st ! unat k)" using assms(4) by linarith
  have nomatch: "\<forall>i<length (cache st ! unat k).
      \<not> (tag (cache st ! unat k ! i) = t \<and> valid (cache st ! unat k ! i) = CHR ''1'')"
    using assms(3) by blast
  note r = accessData_install_result[OF ok assms(2) nomatch assms(4,5,6) res]
  show "miss_cnt st' = miss_cnt st + 1" "hit_cnt st' = hit_cnt st" "evict_cnt st' = evict_cnt st"
    by (rule r)+
  show "\<exists>c. cache st' = (cache st)[unat k := (cache st ! unat k)[j :=
                (cache st ! unat k ! j)\<lparr>valid := CHR ''1'', tag := t, count := c\<rparr>]] \<and>
           (\<forall>i<length (cache st ! unat k). count (cache st ! unat k ! i) < c)"
    using r(1) enter_most_props(1)[OF ok k n] by blast
next
  assume small: "miss_cnt st < INT_MAX \<and>
          (\<forall>i<length (cache st ! unat k). count (cache st ! unat k ! i) < INT_MAX)"
  have ok: "sim_ok g st" using assms(1) by (rule reachable_sim_ok)
  have nomatch: "\<forall>i<length (cache st ! unat k).
      \<not> (tag (cache st ! unat k ! i) = t \<and> valid (cache st ! unat k ! i) = CHR ''1'')"
    using assms(3) by blast
  show "\<exists>st'. accessData g st addr = Inr st'"
    using small by (intro accessData_install_total[OF ok assms(2) nomatch assms(4,5,6)]) simp_all
qed

theorem miss_fills_first_empty_line_witness:
  "reachable demo demo_warm \<and> decode_addr demo 2 = Inr (0, 1) \<and>
   valid (cache demo_warm ! unat (1 :: mem_addr_t) ! 0) = CHR ''0'' \<and>
   valid (cache demo_warm ! unat (1 :: mem_addr_t) ! 1) = CHR ''0'' \<and>
   (\<exists>st'. accessData demo demo_warm 2 = Inr st' \<and> miss_cnt st' = miss_cnt demo_warm + 1 \<and>
          hit_cnt st' = hit_cnt demo_warm \<and> evict_cnt st' = evict_cnt demo_warm \<and>
          cache st' = (cache demo_warm)[1 := (cache demo_warm ! 1)[0 :=
                         \<lparr>valid = CHR ''1'', tag = 0, count = 1\<rparr>]])"
proof -
  have nomatch: "\<forall>i<length (cache demo_warm ! unat (1 :: mem_addr_t)).
           \<not> (valid (cache demo_warm ! unat (1 :: mem_addr_t) ! i) = CHR ''1'' \<and>
              tag (cache demo_warm ! unat (1 :: mem_addr_t) ! i) = 0)"
    by (simp add: demo_warm_def less_two)
  have j: "0 < length (cache demo_warm ! unat (1 :: mem_addr_t))"
    and v: "valid (cache demo_warm ! unat (1 :: mem_addr_t) ! 0) = CHR ''0''"
    and v1: "valid (cache demo_warm ! unat (1 :: mem_addr_t) ! 1) = CHR ''0''"
    and first: "\<forall>i<0. valid (cache demo_warm ! unat (1 :: mem_addr_t) ! i) \<noteq> CHR ''0''"
    by (simp_all add: demo_warm_def)
  show ?thesis
    using miss_fills_first_empty_line[OF demo_warm_reachable demo_decode(3) nomatch j v first]
      demo_warm_reachable v v1
    by (simp add: demo_access demo_decode demo_counters) (simp add: demo_warm_def)
qed

text \<open>
  C1. In a reachable state, let the address decode to tag \<open>t\<close> and set \<open>k\<close>, let every
  line of that set be valid and none have tag \<open>t\<close>. When \<^verbatim>\<open>accessData\<close> returns, there
  is a victim line \<open>m\<close> among the \<open>E\<close> lines of the set whose old count is the minimum of
  the set and which is the lowest index with that count; the cache differs from the old
  one only in the tag of that line, now \<open>t\<close>, and in its count, now strictly greater than
  every count of the set before the call; the eviction counter and the miss counter have
  each grown by exactly one and the hit counter is unchanged. The call does return when
  the set has a line and the miss counter and the counts of the set are below
  \<open>INT_MAX\<close>.
\<close>

theorem full_set_evicts_least_recent:
  assumes "reachable g st" and "decode_addr g addr = Inr (t, k)"
    and "\<forall>i<length (cache st ! unat k). valid (cache st ! unat k ! i) = CHR ''1''"
    and "\<forall>i<length (cache st ! unat k).
           \<not> (valid (cache st ! unat k ! i) = CHR ''1'' \<and> tag (cache st ! unat k ! i) = t)"
  shows "(\<forall>st'. accessData g st addr = Inr st' \<longrightarrow>
            length (cache st ! unat k) = nat (opt_E g) \<and>
            (\<exists>m c. m < length (cache st ! unat k) \<and>
               (\<forall>i<length (cache st ! unat k).
                  count (cache st ! unat k ! m) \<le> count (cache st ! unat k ! i)) \<and>
               (\<forall>i<m. count (cache st ! unat k ! i) \<noteq> count (cache st ! unat k ! m)) \<and>
               cache st' = (cache st)[unat k := (cache st ! unat k)[m :=
                              (cache st ! unat k ! m)\<lparr>tag := t, count := c\<rparr>]] \<and>
               (\<forall>i<length (cache st ! unat k). count (cache st ! unat k ! i) < c)) \<and>
            evict_cnt st' = evict_cnt st + 1 \<and> miss_cnt st' = miss_cnt st + 1 \<and>
            hit_cnt st' = hit_cnt st) \<and>
         (0 < length (cache st ! unat k) \<and> miss_cnt st < INT_MAX \<and>
          (\<forall>i<length (cache st ! unat k). count (cache st ! unat k ! i) < INT_MAX) \<longrightarrow>
            (\<exists>st'. accessData g st addr = Inr st'))"
proof (intro conjI allI impI)
  fix st' assume res: "accessData g st addr = Inr st'"
  let ?ls = "cache st ! unat k" and ?n = "nat (opt_E g)"
  let ?lr = "leastRecent (enter ?n ?ls st)"
  have ok: "sim_ok g st" using assms(1) by (rule reachable_sim_ok)
  have k: "unat k < length (cache st)" using ok assms(2) by (rule decode_addr_index)
  show len: "length ?ls = ?n" using ok k by (rule sim_ok_set)
  have n: "0 < length ?ls" using ok assms(2) res by (rule accessData_empty_set)
  have nomatch: "\<forall>i<length ?ls. \<not> (tag (?ls ! i) = t \<and> valid (?ls ! i) = CHR ''1'')"
    using assms(4) by blast
  have full: "\<forall>i<length ?ls. valid (?ls ! i) \<noteq> CHR ''0''" using assms(3) by simp
  have least: "\<forall>i<length ?ls. ?lr \<le> count (?ls ! i)"
    using enter_least[of ?n ?ls st] n len by simp
  have "\<exists>m<?n. count (?ls ! m) = ?lr" using enter_least[of ?n ?ls st] n len by simp
  then have "\<exists>m<?n. count (?ls ! m) = ?lr \<and> (\<forall>i<m. \<not> count (?ls ! i) = ?lr)"
    by (rule first_index)
  then obtain m where m: "m < length ?ls" "count (?ls ! m) = ?lr"
    and first: "\<forall>i<m. count (?ls ! i) \<noteq> ?lr" using len by auto
  note r = accessData_evict_result[OF ok assms(2) nomatch full m first res]
  show "evict_cnt st' = evict_cnt st + 1" "miss_cnt st' = miss_cnt st + 1"
    "hit_cnt st' = hit_cnt st" by (rule r)+
  have 1: "\<forall>i<length ?ls. count (?ls ! m) \<le> count (?ls ! i)" using least m(2) by simp
  have 2: "\<forall>i<m. count (?ls ! i) \<noteq> count (?ls ! m)" using first m(2) by simp
  show "\<exists>m c. m < length ?ls \<and>
               (\<forall>i<length ?ls. count (?ls ! m) \<le> count (?ls ! i)) \<and>
               (\<forall>i<m. count (?ls ! i) \<noteq> count (?ls ! m)) \<and>
               cache st' = (cache st)[unat k := ?ls[m := (?ls ! m)\<lparr>tag := t, count := c\<rparr>]] \<and>
               (\<forall>i<length ?ls. count (?ls ! i) < c)"
    using m(1) 1 2 r(1) enter_most_props(1)[OF ok k n] by blast
next
  assume small: "0 < length (cache st ! unat k) \<and> miss_cnt st < INT_MAX \<and>
          (\<forall>i<length (cache st ! unat k). count (cache st ! unat k ! i) < INT_MAX)"
  have ok: "sim_ok g st" using assms(1) by (rule reachable_sim_ok)
  have nomatch: "\<forall>i<length (cache st ! unat k).
      \<not> (tag (cache st ! unat k ! i) = t \<and> valid (cache st ! unat k ! i) = CHR ''1'')"
    using assms(4) by blast
  have full: "\<forall>i<length (cache st ! unat k). valid (cache st ! unat k ! i) \<noteq> CHR ''0''"
    using assms(3) by simp
  show "\<exists>st'. accessData g st addr = Inr st'"
    using small by (intro accessData_evict_total[OF ok assms(2) nomatch full]) simp_all
qed

theorem full_set_evicts_least_recent_witness:
  "reachable demo demo_warm \<and> decode_addr demo 8 = Inr (2, 0) \<and>
   cache demo_warm ! 0 = [\<lparr>valid = CHR ''1'', tag = 0, count = 3\<rparr>,
                          \<lparr>valid = CHR ''1'', tag = 1, count = 2\<rparr>] \<and>
   (\<exists>st'. accessData demo demo_warm 8 = Inr st' \<and>
          cache st' ! 0 = [\<lparr>valid = CHR ''1'', tag = 0, count = 3\<rparr>,
                           \<lparr>valid = CHR ''1'', tag = 2, count = 4\<rparr>] \<and>
          evict_cnt st' = evict_cnt demo_warm + 1 \<and> miss_cnt st' = miss_cnt demo_warm + 1 \<and>
          hit_cnt st' = hit_cnt demo_warm)"
proof -
  have full: "\<forall>i<length (cache demo_warm ! unat (0 :: mem_addr_t)).
                valid (cache demo_warm ! unat (0 :: mem_addr_t) ! i) = CHR ''1''"
    and nomatch: "\<forall>i<length (cache demo_warm ! unat (0 :: mem_addr_t)).
           \<not> (valid (cache demo_warm ! unat (0 :: mem_addr_t) ! i) = CHR ''1'' \<and>
              tag (cache demo_warm ! unat (0 :: mem_addr_t) ! i) = 2)"
    by (simp_all add: demo_warm_def less_two)
  show ?thesis
    using full_set_evicts_least_recent[OF demo_warm_reachable demo_decode(1) full nomatch]
      demo_warm_reachable
    by (simp add: demo_access demo_decode demo_counters) (simp add: demo_warm_def)
qed

section \<open>Counters\<close>

text \<open>
  C6. In every state reached from a fresh cache by completed \<^verbatim>\<open>accessData\<close> calls the
  eviction counter is at most the miss counter, and one more call either leaves the
  eviction counter alone or adds exactly one to it while adding one to the miss counter
  and nothing to the hit counter: evictions are counted only in the miss branch, at
  most once per access.
\<close>

theorem evictions_le_misses:
  assumes "reachable g st"
  shows "evict_cnt st \<le> miss_cnt st \<and>
         (\<forall>addr st'. accessData g st addr = Inr st' \<longrightarrow>
            evict_cnt st' = evict_cnt st \<or>
            evict_cnt st' = evict_cnt st + 1 \<and> miss_cnt st' = miss_cnt st + 1 \<and>
            hit_cnt st' = hit_cnt st)"
proof -
  have ok: "sim_ok g st" using assms by (rule reachable_sim_ok)
  then have "evict_cnt st \<le> miss_cnt st" by (simp add: sim_ok_def)
  moreover have "evict_cnt st' = evict_cnt st \<or>
            evict_cnt st' = evict_cnt st + 1 \<and> miss_cnt st' = miss_cnt st + 1 \<and>
            hit_cnt st' = hit_cnt st"
    if "accessData g st addr = Inr st'" for addr st'
    using accessData_counters[OF ok that] by blast
  ultimately show ?thesis by blast
qed

theorem evictions_le_misses_witness:
  "reachable demo demo_warm \<and> evict_cnt demo_warm \<le> miss_cnt demo_warm \<and>
   (\<exists>st'. accessData demo demo_warm 8 = Inr st' \<and>
          evict_cnt st' = evict_cnt demo_warm + 1 \<and> miss_cnt st' = miss_cnt demo_warm + 1 \<and>
          evict_cnt st' = 1 \<and> miss_cnt st' = 3)"
  using evictions_le_misses[OF demo_warm_reachable] demo_warm_reachable
  by (simp add: demo_access demo_counters)

text \<open>
  C5. Replaying a trace on a fresh cache ends with \<open>hit_cnt + miss_cnt\<close> equal to the
  number of loads plus the number of stores plus twice the number of modifies;
  instruction fetches count for nothing. Equivalently, one completed \<^verbatim>\<open>accessData\<close>
  call in a reachable state adds one to exactly one of \<open>hit_cnt\<close> and \<open>miss_cnt\<close> and
  leaves the other alone. The replay does complete when the geometry is one that
  \<^verbatim>\<open>accessData\<close> can decode, the sets have a line, and the trace makes at most
  \<open>INT_MAX\<close> calls, so that no counter leaves the range of \<^verbatim>\<open>int\<close>.
\<close>

theorem hits_plus_misses:
  assumes "initCache g = Inr st0"
  shows "(\<forall>st. replayTrace g st0 tr = Inr st \<longrightarrow>
            hit_cnt st + miss_cnt st =
            int (length (filter (\<lambda>e. fst e = Load) tr) + length (filter (\<lambda>e. fst e = Store) tr)
                 + 2 * length (filter (\<lambda>e. fst e = Modify) tr))) \<and>
         (\<forall>st addr st'. reachable g st \<and> accessData g st addr = Inr st' \<longrightarrow>
            hit_cnt st' = hit_cnt st + 1 \<and> miss_cnt st' = miss_cnt st \<or>
            hit_cnt st' = hit_cnt st \<and> miss_cnt st' = miss_cnt st + 1) \<and>
         (1 \<le> opt_b g \<and> opt_s g + opt_b g \<le> 30 \<and> 1 \<le> opt_E g \<and>
          int (length (filter (\<lambda>e. fst e = Load) tr) + length (filter (\<lambda>e. fst e = Store) tr)
               + 2 * length (filter (\<lambda>e. fst e = Modify) tr)) \<le> INT_MAX \<longrightarrow>
            (\<exists>st. replayTrace g st0 tr = Inr st))"
proof (intro conjI allI impI)
  fix st assume r: "replayTrace g st0 tr = Inr st"
  have ok: "sim_ok g st0" using assms by (rule sim_ok_fresh)
  have z: "hit_cnt st0 = 0" "miss_cnt st0 = 0" using assms by (simp_all add: initCache_Inr)
  show "hit_cnt st + miss_cnt st =
        int (length (filter (\<lambda>e. fst e = Load) tr) + length (filter (\<lambda>e. fst e = Store) tr)
             + 2 * length (filter (\<lambda>e. fst e = Modify) tr))"
    using replayTrace_counts[OF ok r] z by (simp only: calls_filter)
next
  fix st addr st' assume a: "reachable g st \<and> accessData g st addr = Inr st'"
  then have "sim_ok g st" by (simp add: reachable_sim_ok)
  then show "hit_cnt st' = hit_cnt st + 1 \<and> miss_cnt st' = miss_cnt st \<or>
             hit_cnt st' = hit_cnt st \<and> miss_cnt st' = miss_cnt st + 1"
    using accessData_counters[of g st addr st'] a by blast
next
  assume a: "1 \<le> opt_b g \<and> opt_s g + opt_b g \<le> 30 \<and> 1 \<le> opt_E g \<and>
          int (length (filter (\<lambda>e. fst e = Load) tr) + length (filter (\<lambda>e. fst e = Store) tr)
               + 2 * length (filter (\<lambda>e. fst e = Modify) tr)) \<le> INT_MAX"
  have ok: "sim_ok g st0" using assms by (rule sim_ok_fresh)
  have z: "hit_cnt st0 + miss_cnt st0 = 0" using assms by (simp add: initCache_Inr)
  have "hit_cnt st0 + miss_cnt st0 + int (calls tr) \<le> INT_MAX"
    using a z by (simp only: calls_filter) simp
  then show "\<exists>st. replayTrace g st0 tr = Inr st"
    using ok a by (intro replayTrace_total) simp_all
qed

theorem hits_plus_misses_witness:
  "initCache demo = Inr \<lparr>cache = [[empty_line, empty_line], [empty_line, empty_line]],
                          hit_cnt = 0, miss_cnt = 0, evict_cnt = 0\<rparr> \<and>
   replayTrace demo \<lparr>cache = [[empty_line, empty_line], [empty_line, empty_line]],
                     hit_cnt = 0, miss_cnt = 0, evict_cnt = 0\<rparr>
     [(Load, 0), (InstructionFetch, 0), (Store, 4), (Load, 0), (Modify, 8)]
     = Inr \<lparr>cache = [[\<lparr>valid = CHR ''1'', tag = 0, count = 3\<rparr>,
                      \<lparr>valid = CHR ''1'', tag = 2, count = 5\<rparr>],
                     [empty_line, empty_line]],
            hit_cnt = 2, miss_cnt = 3, evict_cnt = 1\<rparr> \<and>
   (2::int) + 3 = int (length (filter (\<lambda>e. fst e = Load)
                     [(Load, 0::mem_addr_t), (InstructionFetch, 0), (Store, 4), (Load, 0), (Modify, 8)])
                 + length (filter (\<lambda>e. fst e = Store)
                     [(Load, 0::mem_addr_t), (InstructionFetch, 0), (Store, 4), (Load, 0), (Modify, 8)])
                 + 2 * length (filter (\<lambda>e. fst e = Modify)
                     [(Load, 0::mem_addr_t), (InstructionFetch, 0), (Store, 4), (Load, 0), (Modify, 8)])) \<and>
   reachable demo demo_warm \<and>
   (\<exists>st'. accessData demo demo_warm 4 = Inr st' \<and>
          hit_cnt st' = hit_cnt demo_warm + 1 \<and> miss_cnt st' = miss_cnt demo_warm)"
proof -
  have r: "replayTrace demo \<lparr>cache = [[empty_line, empty_line], [empty_line, empty_line]],
                     hit_cnt = 0, miss_cnt = 0, evict_cnt = 0\<rparr>
     [(Load, 0), (InstructionFetch, 0), (Store, 4), (Load, 0), (Modify, 8)]
     = Inr \<lparr>cache = [[\<lparr>valid = CHR ''1'', tag = 0, count = 3\<rparr>,
                      \<lparr>valid = CHR ''1'', tag = 2, count = 5\<rparr>],
                     [empty_line, empty_line]],
            hit_cnt = 2, miss_cnt = 3, evict_cnt = 1\<rparr>"
    by code_simp
  show ?thesis
    using hits_plus_misses[OF demo_fresh,
        of "[(Load, 0), (InstructionFetch, 0), (Store, 4), (Load, 0), (Modify, 8)]"]
      demo_warm_reachable demo_fresh r
    by (simp add: demo_access demo_counters)
qed

section \<open>Recency\<close>

text \<open>
  C7. In every state reached from a fresh cache by completed \<^verbatim>\<open>accessData\<close> calls, two
  different valid lines of one set never have the same count. The reason is the second
  half: a completed call rewrites one line of the decoded set and gives it a count
  strictly greater than every count the set held before the call.
\<close>

theorem valid_counts_distinct:
  assumes "reachable g st"
  shows "(\<forall>k<length (cache st). \<forall>i<length (cache st ! k). \<forall>j<length (cache st ! k).
            i \<noteq> j \<and> valid (cache st ! k ! i) = CHR ''1'' \<and> valid (cache st ! k ! j) = CHR ''1''
            \<longrightarrow> count (cache st ! k ! i) \<noteq> count (cache st ! k ! j)) \<and>
         (\<forall>addr t k st'. decode_addr g addr = Inr (t, k) \<and> accessData g st addr = Inr st' \<longrightarrow>
            (\<exists>x<length (cache st ! unat k). \<exists>l'.
               cache st' = (cache st)[unat k := (cache st ! unat k)[x := l']] \<and>
               (\<forall>j<length (cache st ! unat k). count (cache st ! unat k ! j) < count l')))"
proof (intro conjI allI impI)
  fix k i j
  assume k: "k < length (cache st)" and i: "i < length (cache st ! k)"
    and j: "j < length (cache st ! k)"
    and h: "i \<noteq> j \<and> valid (cache st ! k ! i) = CHR ''1'' \<and> valid (cache st ! k ! j) = CHR ''1''"
  have "sim_ok g st" using assms by (rule reachable_sim_ok)
  then have "set_ok (cache st ! k)" using k by (rule sim_ok_set)
  then show "count (cache st ! k ! i) \<noteq> count (cache st ! k ! j)"
    using i j h unfolding set_ok_def by blast
next
  fix addr t k st'
  assume a: "decode_addr g addr = Inr (t, k) \<and> accessData g st addr = Inr st'"
  have ok: "sim_ok g st" using assms by (rule reachable_sim_ok)
  from a have dec: "decode_addr g addr = Inr (t, k)" and res: "accessData g st addr = Inr st'"
    by simp_all
  from accessData_touch[OF ok dec res]
  show "\<exists>x<length (cache st ! unat k). \<exists>l'.
               cache st' = (cache st)[unat k := (cache st ! unat k)[x := l']] \<and>
               (\<forall>j<length (cache st ! unat k). count (cache st ! unat k ! j) < count l')"
    by blast
qed

theorem valid_counts_distinct_witness:
  "reachable demo demo_warm \<and>
   valid (cache demo_warm ! 0 ! 0) = CHR ''1'' \<and> valid (cache demo_warm ! 0 ! 1) = CHR ''1'' \<and>
   count (cache demo_warm ! 0 ! 0) \<noteq> count (cache demo_warm ! 0 ! 1) \<and>
   (\<exists>st' l'. accessData demo demo_warm 8 = Inr st' \<and>
      cache st' = (cache demo_warm)[0 := (cache demo_warm ! 0)[1 := l']] \<and> count l' = 4)"
proof -
  have "cache \<lparr>cache = [[\<lparr>valid = CHR ''1'', tag = 0, count = 3\<rparr>,
                     \<lparr>valid = CHR ''1'', tag = 2, count = 4\<rparr>],
                    [\<lparr>valid = CHR ''0'', tag = 0, count = 0\<rparr>,
                     \<lparr>valid = CHR ''0'', tag = 0, count = 0\<rparr>]],
           hit_cnt = 1, miss_cnt = 3, evict_cnt = 1\<rparr>
        = (cache demo_warm)[0 := (cache demo_warm ! 0)[1 := \<lparr>valid = CHR ''1'', tag = 2, count = 4\<rparr>]]"
    by (simp add: demo_warm_def)
  then have step: "\<exists>st' l'. accessData demo demo_warm 8 = Inr st' \<and>
      cache st' = (cache demo_warm)[0 := (cache demo_warm ! 0)[1 := l']] \<and> count l' = 4"
    using demo_access(1) by (metis cache_line.select_convs(3))
  have "0 < length (cache demo_warm)" "0 < length (cache demo_warm ! 0)"
    "1 < length (cache demo_warm ! 0)"
    "(0::nat) \<noteq> 1 \<and> valid (cache demo_warm ! 0 ! 0) = CHR ''1'' \<and>
     valid (cache demo_warm ! 0 ! 1) = CHR ''1''"
    by (simp_all add: demo_warm_def)
  then show ?thesis
    using valid_counts_distinct[OF demo_warm_reachable, THEN conjunct1, rule_format, of 0 0 1]
      demo_warm_reachable step
    by blast
qed

section \<open>The accessed block is resident afterwards\<close>

text \<open>
  C10. When \<^verbatim>\<open>accessData\<close> returns from a reachable state, the set the address decodes
  to holds a valid line with the decoded tag. In particular, when that set was full and
  held no line with the tag, the replacement scan found a line whose count is the minimum
  computed at the start of the call (the second component of \<open>scan_recency\<close>), and that
  line now carries the tag: the miss branch does not fall through.
\<close>

theorem tag_present_after_access:
  assumes "reachable g st" and "accessData g st addr = Inr st'"
  shows "\<exists>t k. decode_addr g addr = Inr (t, k) \<and> unat k < length (cache st') \<and>
           (\<exists>x<length (cache st' ! unat k).
              valid (cache st' ! unat k ! x) = CHR ''1'' \<and> tag (cache st' ! unat k ! x) = t) \<and>
           ((\<forall>i<length (cache st ! unat k).
               valid (cache st ! unat k ! i) = CHR ''1'' \<and> tag (cache st ! unat k ! i) \<noteq> t) \<longrightarrow>
            (\<exists>m<length (cache st ! unat k).
               count (cache st ! unat k ! m) = snd (scan_recency (nat (opt_E g)) (cache st ! unat k)) \<and>
               valid (cache st' ! unat k ! m) = CHR ''1'' \<and> tag (cache st' ! unat k ! m) = t))"
proof -
  have ok: "sim_ok g st" using assms(1) by (rule reachable_sim_ok)
  obtain t k where dec: "decode_addr g addr = Inr (t, k)"
    using accessData_decodes[OF assms(2)] by blast
  let ?ls = "cache st ! unat k" and ?n = "nat (opt_E g)"
  let ?lr = "leastRecent (enter ?n ?ls st)"
  have k: "unat k < length (cache st)" using ok dec by (rule decode_addr_index)
  have len: "length ?ls = ?n" and sok: "set_ok ?ls" using ok k by (rule sim_ok_set)+
  have n: "0 < length ?ls" using ok dec assms(2) by (rule accessData_empty_set)
  from accessData_touch[OF ok dec assms(2)] obtain x l' where
    x: "x < length ?ls" and c: "cache st' = (cache st)[unat k := ?ls[x := l']]"
    and l': "valid l' = CHR ''1''" "tag l' = t" by blast
  have k': "unat k < length (cache st')" using k c by simp
  have set': "cache st' ! unat k = ?ls[x := l']" using k c by simp
  have present: "\<exists>x<length (cache st' ! unat k).
      valid (cache st' ! unat k ! x) = CHR ''1'' \<and> tag (cache st' ! unat k ! x) = t"
    using x l' by (intro exI[of _ x]) (simp add: set')
  have victim: "\<exists>m<length ?ls. count (?ls ! m) = snd (scan_recency ?n ?ls) \<and>
                  valid (cache st' ! unat k ! m) = CHR ''1'' \<and> tag (cache st' ! unat k ! m) = t"
    if full: "\<forall>i<length ?ls. valid (?ls ! i) = CHR ''1'' \<and> tag (?ls ! i) \<noteq> t"
  proof -
    have nomatch: "\<forall>i<length ?ls. \<not> (tag (?ls ! i) = t \<and> valid (?ls ! i) = CHR ''1'')"
      using full by blast
    have nz: "\<forall>i<length ?ls. valid (?ls ! i) \<noteq> CHR ''0''" using full by simp
    have "\<exists>m<?n. count (?ls ! m) = ?lr" using enter_least[of ?n ?ls st] n len by simp
    then have "\<exists>m<?n. count (?ls ! m) = ?lr \<and> (\<forall>i<m. \<not> count (?ls ! i) = ?lr)"
      by (rule first_index)
    then obtain m where m: "m < length ?ls" "count (?ls ! m) = ?lr"
      and first: "\<forall>i<m. count (?ls ! i) \<noteq> ?lr" using len by auto
    note r = accessData_evict_result[OF ok dec nomatch nz m first assms(2)]
    have "cache st' ! unat k ! m = (?ls ! m)\<lparr>tag := t, count := mostRecent (enter ?n ?ls st) + 1\<rparr>"
      using r(1) k m(1) by simp
    then have "valid (cache st' ! unat k ! m) = CHR ''1'' \<and> tag (cache st' ! unat k ! m) = t"
      using full m(1) by simp
    then show ?thesis using m by (intro exI[of _ m]) (simp add: enter_fields)
  qed
  show ?thesis using dec k' present victim by blast
qed

theorem tag_present_after_access_witness:
  "reachable demo demo_warm \<and>
   snd (scan_recency (nat (opt_E demo)) (cache demo_warm ! 0)) = 2 \<and>
   count (cache demo_warm ! 0 ! 1) = 2 \<and>
   (\<exists>st'. accessData demo demo_warm 8 = Inr st' \<and> decode_addr demo 8 = Inr (2, 0) \<and>
          valid (cache st' ! 0 ! 1) = CHR ''1'' \<and> tag (cache st' ! 0 ! 1) = 2)"
  using tag_present_after_access[OF demo_warm_reachable demo_access(1)] demo_warm_reachable
  by (simp add: demo_access demo_decode demo_scan) (simp add: demo_warm_def)

section \<open>Modify\<close>

text \<open>
  C9. In a reachable state, let the address of a modify event decode to tag \<open>t\<close> and set
  \<open>k\<close>, and let no valid line of that set have tag \<open>t\<close>. When the event has been
  replayed, its two \<^verbatim>\<open>accessData\<close> calls at that address were a miss (miss counter plus
  one, hit counter unchanged, eviction counter unchanged or plus one) followed by a hit
  (hit counter plus one, miss and eviction counters unchanged). The event does complete
  when the sets have a line and the two calls keep the counters below \<open>INT_MAX\<close>.
\<close>

theorem modify_miss_then_hit:
  assumes "reachable g st" and "decode_addr g addr = Inr (t, k)"
    and "\<forall>i<length (cache st ! unat k).
           \<not> (valid (cache st ! unat k ! i) = CHR ''1'' \<and> tag (cache st ! unat k ! i) = t)"
  shows "(\<forall>st''. replayEvent g st (Modify, addr) = Inr st'' \<longrightarrow>
            (\<exists>st'. accessData g st addr = Inr st' \<and> accessData g st' addr = Inr st'' \<and>
               miss_cnt st' = miss_cnt st + 1 \<and> hit_cnt st' = hit_cnt st \<and>
               (evict_cnt st' = evict_cnt st \<or> evict_cnt st' = evict_cnt st + 1) \<and>
               hit_cnt st'' = hit_cnt st' + 1 \<and> miss_cnt st'' = miss_cnt st' \<and>
               evict_cnt st'' = evict_cnt st')) \<and>
         (0 < opt_E g \<and> hit_cnt st + miss_cnt st + 1 < INT_MAX \<longrightarrow>
            (\<exists>st''. replayEvent g st (Modify, addr) = Inr st''))"
proof (intro conjI allI impI)
  fix st'' assume ev: "replayEvent g st (Modify, addr) = Inr st''"
  let ?ls = "cache st ! unat k"
  have ok: "sim_ok g st" using assms(1) by (rule reachable_sim_ok)
  from ev obtain st' where r1: "accessData g st addr = Inr st'"
    and r2: "accessData g st' addr = Inr st''" by (auto simp: bindE_eq_Inr)
  have k: "unat k < length (cache st)" using ok assms(2) by (rule decode_addr_index)
  from accessData_touch[OF ok assms(2) r1] obtain x l' where
    x: "x < length ?ls" and c: "cache st' = (cache st)[unat k := ?ls[x := l']]"
    and l': "valid l' = CHR ''1''" "tag l' = t"
    and cnt: "hit_cnt st' = hit_cnt st + 1 \<and> miss_cnt st' = miss_cnt st \<and>
            evict_cnt st' = evict_cnt st \<and> tag (?ls ! x) = t \<and> valid (?ls ! x) = CHR ''1''
            \<or>
            hit_cnt st' = hit_cnt st \<and> miss_cnt st' = miss_cnt st + 1 \<and>
            (evict_cnt st' = evict_cnt st \<or> evict_cnt st' = evict_cnt st + 1) \<and>
            (\<forall>j<length ?ls. \<not> (tag (?ls ! j) = t \<and> valid (?ls ! j) = CHR ''1''))"
    by blast
  have "\<not> (tag (?ls ! x) = t \<and> valid (?ls ! x) = CHR ''1'')" using assms(3) x by blast
  then have first: "hit_cnt st' = hit_cnt st" "miss_cnt st' = miss_cnt st + 1"
    "evict_cnt st' = evict_cnt st \<or> evict_cnt st' = evict_cnt st + 1"
    using cnt by blast+
  have ok1: "sim_ok g st'" using ok r1 by (rule sim_ok_step)
  have set': "cache st' ! unat k = ?ls[x := l']" using k c by simp
  have x': "x < length (cache st' ! unat k)" using x by (simp add: set')
  have m: "tag (cache st' ! unat k ! x) = t" "valid (cache st' ! unat k ! x) = CHR ''1''"
    using x l' by (simp_all add: set')
  note h = accessData_hit_result[OF ok1 assms(2) x' m r2]
  show "\<exists>st'. accessData g st addr = Inr st' \<and> accessData g st' addr = Inr st'' \<and>
               miss_cnt st' = miss_cnt st + 1 \<and> hit_cnt st' = hit_cnt st \<and>
               (evict_cnt st' = evict_cnt st \<or> evict_cnt st' = evict_cnt st + 1) \<and>
               hit_cnt st'' = hit_cnt st' + 1 \<and> miss_cnt st'' = miss_cnt st' \<and>
               evict_cnt st'' = evict_cnt st'"
    using r1 r2 first h(2-4) by blast
next
  assume a: "0 < opt_E g \<and> hit_cnt st + miss_cnt st + 1 < INT_MAX"
  have ok: "sim_ok g st" using assms(1) by (rule reachable_sim_ok)
  have geo: "1 \<le> opt_b g" "opt_s g + opt_b g \<le> 30"
    using decode_addr_out_of_range[OF assms(2)] by simp_all
  have "hit_cnt st + miss_cnt st + int (calls [(Modify, addr)]) \<le> INT_MAX" using a by simp
  then show "\<exists>st''. replayEvent g st (Modify, addr) = Inr st''"
    using a by (intro replayEvent_total[OF ok geo]) simp_all
qed

theorem modify_miss_then_hit_witness:
  "reachable demo demo_warm \<and> decode_addr demo 8 = Inr (2, 0) \<and>
   (\<exists>st' st''. replayEvent demo demo_warm (Modify, 8) = Inr st'' \<and>
      accessData demo demo_warm 8 = Inr st' \<and> accessData demo st' 8 = Inr st'' \<and>
      miss_cnt st' = 3 \<and> hit_cnt st' = 1 \<and> evict_cnt st' = 1 \<and>
      miss_cnt st'' = 3 \<and> hit_cnt st'' = 2 \<and> evict_cnt st'' = 1)"
proof -
  have nomatch: "\<forall>i<length (cache demo_warm ! unat (0 :: mem_addr_t)).
           \<not> (valid (cache demo_warm ! unat (0 :: mem_addr_t) ! i) = CHR ''1'' \<and>
              tag (cache demo_warm ! unat (0 :: mem_addr_t) ! i) = 2)"
    by (simp add: demo_warm_def less_two)
  have ev: "replayEvent demo demo_warm (Modify, 8) =
     Inr \<lparr>cache = [[\<lparr>valid = CHR ''1'', tag = 0, count = 3\<rparr>,
                     \<lparr>valid = CHR ''1'', tag = 2, count = 5\<rparr>],
                    [\<lparr>valid = CHR ''0'', tag = 0, count = 0\<rparr>,
                     \<lparr>valid = CHR ''0'', tag = 0, count = 0\<rparr>]],
           hit_cnt = 2, miss_cnt = 3, evict_cnt = 1\<rparr>"
    by code_simp
  show ?thesis
    using modify_miss_then_hit[OF demo_warm_reachable demo_decode(1) nomatch, THEN conjunct1,
        rule_format, OF ev] demo_warm_reachable ev
    by (auto simp: demo_access demo_decode demo_counters)
qed

section \<open>The concrete scenario\<close>

text \<open>
  C8. With \<open>s = 1\<close>, \<open>E = 1\<close>, \<open>b = 1\<close> (2 sets of 1 line, 2-byte blocks) the fresh cache
  replays the accesses \<open>0x0\<close>, \<open>0x2\<close>, \<open>0x4\<close> with 0 hits, 3 misses and 1 eviction:
  the three addresses decode to the sets 0, 1, 0 (second component) with the tags 0, 0, 1;
  after \<open>0x0\<close> and \<open>0x2\<close> each set holds tag 0 and nothing was evicted; the access to
  \<open>0x4\<close> goes to set 0 with tag 1 and replaces the line that held the tag of \<open>0x0\<close>.
\<close>

theorem scenario_three_misses_one_eviction:
  "initCache \<lparr>opt_s = 1, opt_E = 1, opt_b = 1\<rparr>
     = Inr \<lparr>cache = [[\<lparr>valid = CHR ''0'', tag = 0, count = 0\<rparr>],
                     [\<lparr>valid = CHR ''0'', tag = 0, count = 0\<rparr>]],
            hit_cnt = 0, miss_cnt = 0, evict_cnt = 0\<rparr>
   \<and> replayTrace \<lparr>opt_s = 1, opt_E = 1, opt_b = 1\<rparr>
       \<lparr>cache = [[\<lparr>valid = CHR ''0'', tag = 0, count = 0\<rparr>],
                 [\<lparr>valid = CHR ''0'', tag = 0, count = 0\<rparr>]],
        hit_cnt = 0, miss_cnt = 0, evict_cnt = 0\<rparr>
       [(Load, 0), (Load, 2)]
     = Inr \<lparr>cache = [[\<lparr>valid = CHR ''1'', tag = 0, count = 1\<rparr>],
                     [\<lparr>valid = CHR ''1'', tag = 0, count = 1\<rparr>]],
            hit_cnt = 0, miss_cnt = 2, evict_cnt = 0\<rparr>
   \<and> decode_addr \<lparr>opt_s = 1, opt_E = 1, opt_b = 1\<rparr> 0 = Inr (0, 0)
   \<and> decode_addr \<lparr>opt_s = 1, opt_E = 1, opt_b = 1\<rparr> 2 = Inr (0, 1)
   \<and> decode_addr \<lparr>opt_s = 1, opt_E = 1, opt_b = 1\<rparr> 4 = Inr (1, 0)
   \<and> replayTrace \<lparr>opt_s = 1, opt_E = 1, opt_b = 1\<rparr>
       \<lparr>cache = [[\<lparr>valid = CHR ''0'', tag = 0, count = 0\<rparr>],
                 [\<lparr>valid = CHR ''0'', tag = 0, count = 0\<rparr>]],
        hit_cnt = 0, miss_cnt = 0, evict_cnt = 0\<rparr>
       [(Load, 0), (Load, 2), (Load, 4)]
     = Inr \<lparr>cache = [[\<lparr>valid = CHR ''1'', tag = 1, count = 2\<rparr>],
                     [\<lparr>valid = CHR ''1'', tag = 0, count = 1\<rparr>]],
            hit_cnt = 0, miss_cnt = 3, evict_cnt = 1\<rparr>"
  by code_simp

end
